theory Spec2Isabelle
  imports Main "HOL-Library.AList"
begin

section \<open>The bounded test queue (class TestQueue)\<close>

text \<open>
  JavaScript values that a task can return or throw.  An \<open>Error\<close> instance carries its
  \<open>name\<close> and \<open>message\<close>.  \<open>JObject r\<close> stands for any other value that is not an \<open>Error\<close>
  instance (a number, a symbol, a plain or a host object), given by what \<open>String()\<close> makes
  of it: \<open>Some\<close> text, or \<open>None\<close> when the conversion throws, as it does for an object
  without usable \<open>toString\<close> and \<open>valueOf\<close> such as \<open>Object.create(null)\<close>, or for one whose
  \<open>toString\<close> throws.  \<open>JRevoked\<close> is a value on which already the test \<open>instanceof Error\<close>
  throws: a revoked \<open>Proxy\<close>, or one whose \<open>getPrototypeOf\<close> trap throws.
\<close>

datatype jsval =
    JUndefined
  | JNull
  | JBool bool
  | JStr string
  | JObject "string option"
  | JError string string
  | JRevoked

text \<open>The test \<open>v instanceof Error\<close>; \<open>None\<close> when evaluating it throws.\<close>

fun instanceof_Error :: "jsval \<Rightarrow> bool option" where
  "instanceof_Error (JError n m) = Some True"
| "instanceof_Error JRevoked = None"
| "instanceof_Error v = Some False"

text \<open>The conversion \<open>String(v)\<close>; \<open>None\<close> when it throws.\<close>

fun String_of :: "jsval \<Rightarrow> string option" where
  "String_of JUndefined = Some ''undefined''"
| "String_of JNull = Some ''null''"
| "String_of (JBool b) = Some (if b then ''true'' else ''false'')"
| "String_of (JStr s) = Some s"
| "String_of (JObject r) = r"
| "String_of (JError n m) = Some (if n = [] then m else if m = [] then n else n @ '': '' @ m)"
| "String_of JRevoked = None"

definition new_Error :: "string \<Rightarrow> jsval" where
  "new_Error m = JError ''Error'' m"

text \<open>
  A queued task.  The closures \<open>task\<close>, \<open>resolve\<close> and \<open>reject\<close> of the source belong to one
  call of \<open>enqueue\<close>; the model names that call by its arrival number \<open>seqno\<close>.
\<close>

record task =
  tid :: string
  seqno :: nat
  queuedAt :: nat

datatype outcome = Returned jsval | Threw jsval

text \<open>
  What an activation of \<open>processQueue\<close> has done to the promise of its task when it ends:
  resolved it, rejected it, or, when the \<open>catch\<close> block itself threw before \<open>reject\<close> was
  called, left it pending for good.
\<close>

datatype settlement = Resolved jsval | Rejected jsval | NeverSettled

text \<open>
  The fields of the class are \<open>queue\<close>, \<open>running\<close> (a \<open>Map\<close> in insertion order, here an
  association list with distinct keys) and \<open>maxConcurrent\<close>.  The run-time around it is
  \<open>started\<close>, the tasks whose work has been invoked, in the order of invocation;
  \<open>promises\<close>, for each call of \<open>enqueue\<close>, \<open>None\<close> as long as the activation of
  \<open>processQueue\<close> for its task has not ended (the promise it returned is pending), and
  afterwards what that activation did to the promise; and \<open>nextSeq\<close>, the number of calls
  of \<open>enqueue\<close> so far.
\<close>

record tqstate =
  queue :: "task list"
  running :: "(string \<times> nat) list"
  maxConcurrent :: int
  started :: "task list"
  promises :: "nat \<Rightarrow> settlement option"
  nextSeq :: nat

definition newTestQueue :: "int \<Rightarrow> tqstate" where
  "newTestQueue n =
     \<lparr>queue = [], running = [], maxConcurrent = n, started = [],
      promises = (\<lambda>k. None), nextSeq = 0\<rparr>"

text \<open>The activations of \<open>processQueue\<close> that are suspended at \<open>await nextTask.task()\<close>.\<close>

definition awaiting :: "tqstate \<Rightarrow> task list" where
  "awaiting s = filter (\<lambda>t. promises s (seqno t) = None) (started s)"

text \<open>
  \<open>processQueue\<close> up to its \<open>await\<close>: one task at most is taken from the head of the queue.
\<close>

definition processQueue :: "nat \<Rightarrow> tqstate \<Rightarrow> tqstate" where
  "processQueue now s =
     (if maxConcurrent s \<le> int (length (running s)) then s
      else case queue s of
        [] \<Rightarrow> s
      | nextTask # rest \<Rightarrow>
          s\<lparr>queue := rest,
            running := AList.update (tid nextTask) now (running s),
            started := started s @ [nextTask]\<rparr>)"

definition enqueue :: "string \<Rightarrow> nat \<Rightarrow> tqstate \<Rightarrow> tqstate" where
  "enqueue i now s =
     processQueue now
       (s\<lparr>queue := queue s @ [\<lparr>tid = i, seqno = nextSeq s, queuedAt = now\<rparr>],
          nextSeq := Suc (nextSeq s)\<rparr>)"

text \<open>
  The argument of \<open>reject\<close> in the \<open>catch\<close> block,
  \<open>error instanceof Error ? error : new Error(String(error))\<close>; \<open>None\<close> when evaluating it
  throws, so that \<open>reject\<close> is not called.
\<close>

definition rejection :: "jsval \<Rightarrow> jsval option" where
  "rejection e =
     (case instanceof_Error e of
        None \<Rightarrow> None
      | Some True \<Rightarrow> Some e
      | Some False \<Rightarrow> map_option new_Error (String_of e))"

fun settlement_of :: "outcome \<Rightarrow> settlement" where
  "settlement_of (Returned v) = Resolved v"
| "settlement_of (Threw e) = (case rejection e of None \<Rightarrow> NeverSettled | Some r \<Rightarrow> Rejected r)"

text \<open>
  \<open>processQueue\<close> from its \<open>await\<close> on, for the started task with arrival number \<open>k\<close> whose
  work ends with \<open>out\<close>: the promise is resolved or rejected, the \<open>finally\<close> block deletes
  the id from \<open>running\<close> and calls \<open>processQueue\<close> again.  The \<open>finally\<close> block runs also
  when the \<open>catch\<close> block throws; the exception then ends the activation, whose own promise
  nobody awaits.  A task that is not awaited has no such continuation.
\<close>

definition settle :: "nat \<Rightarrow> outcome \<Rightarrow> nat \<Rightarrow> tqstate \<Rightarrow> tqstate" where
  "settle k out now s =
     (case find (\<lambda>t. seqno t = k) (awaiting s) of
        None \<Rightarrow> s
      | Some nextTask \<Rightarrow>
          processQueue now
            (s\<lparr>promises := (promises s)(k := Some (settlement_of out)),
               running := AList.delete (tid nextTask) (running s)\<rparr>))"

datatype event = Enqueue string nat | Settle nat outcome nat

fun step :: "tqstate \<Rightarrow> event \<Rightarrow> tqstate" where
  "step s (Enqueue i now) = enqueue i now s"
| "step s (Settle k out now) = settle k out now s"

definition run :: "event list \<Rightarrow> tqstate \<Rightarrow> tqstate" where
  "run evs s = foldl step s evs"

text \<open>\<open>Array.prototype.findIndex\<close>: the index of the first match, or -1.\<close>

fun findIndex :: "('a \<Rightarrow> bool) \<Rightarrow> 'a list \<Rightarrow> int" where
  "findIndex P [] = - 1"
| "findIndex P (x # xs) =
     (if P x then 0
      else (let r = findIndex P xs in if r = - 1 then - 1 else r + 1))"

definition isRunning :: "tqstate \<Rightarrow> string \<Rightarrow> bool" where
  "isRunning s i = (map_of (running s) i \<noteq> None)"

definition isQueued :: "tqstate \<Rightarrow> string \<Rightarrow> bool" where
  "isQueued s i = list_ex (\<lambda>t. tid t = i) (queue s)"

definition getPosition :: "tqstate \<Rightarrow> string \<Rightarrow> int" where
  "getPosition s i =
     (if isRunning s i then 0
      else (let pos = findIndex (\<lambda>t. tid t = i) (queue s)
            in if pos = - 1 then - 1 else pos + 1))"

subsection \<open>Invariants of the queue\<close>

definition qinv :: "tqstate \<Rightarrow> bool" where
  "qinv s \<longleftrightarrow> distinct (map fst (running s)) \<and> int (length (running s)) \<le> maxConcurrent s"

definition submitted :: "nat \<Rightarrow> (string \<times> nat) list \<Rightarrow> task list" where
  "submitted k subs = map (\<lambda>(j, p). \<lparr>tid = fst p, seqno = k + j, queuedAt = snd p\<rparr>) (enumerate 0 subs)"

definition arrival_inv :: "tqstate \<Rightarrow> bool" where
  "arrival_inv s \<longleftrightarrow> map seqno (started s @ queue s) = [0..<nextSeq s]"

definition burst_inv :: "tqstate \<Rightarrow> (string \<times> nat) list \<Rightarrow> bool" where
  "burst_inv s subs \<longleftrightarrow>
     promises s = (\<lambda>k. None)
   \<and> started s @ queue s = submitted 0 subs
   \<and> nextSeq s = length subs
   \<and> (queue s \<noteq> [] \<longrightarrow> maxConcurrent s \<le> int (length (running s)))
   \<and> length (running s) \<le> length (started s)
   \<and> (\<forall>u \<in> set (started s). tid u \<in> fst ` set (running s))
   \<and> qinv s"

text \<open>
  The discipline of the callers of the queue: no id is submitted while a task with that id
  is waiting or in progress.  An id may be submitted again once its task has settled.
\<close>

fun fresh_ids :: "tqstate \<Rightarrow> event list \<Rightarrow> bool" where
  "fresh_ids s [] = True"
| "fresh_ids s (Enqueue i now # evs) =
     (i \<notin> set (map tid (awaiting s @ queue s)) \<and> fresh_ids (enqueue i now s) evs)"
| "fresh_ids s (Settle k out now # evs) = fresh_ids (settle k out now s) evs"

definition inflight_inv :: "tqstate \<Rightarrow> bool" where
  "inflight_inv s \<longleftrightarrow>
     map fst (running s) = map tid (awaiting s)
   \<and> distinct (map tid (awaiting s @ queue s))
   \<and> (\<forall>k. promises s k \<noteq> None \<longrightarrow> k \<in> seqno ` set (started s))"
section \<open>The webhook route that runs the tests of an issue (router.post("/linear"))\<close>

text \<open>
  The route keeps one record per issue id in the map \<open>issueTests\<close>.  The model starts where
  the request has passed the checks of signature, payload, trigger and criteria, at the
  lookup of the record.  \<open>timers\<close> are the pending \<open>setTimeout\<close> callbacks that delete a
  record one hour after its run has ended.
\<close>

datatype status = Queued | Running | Completed

record coordinator =
  issueTests :: "string \<Rightarrow> status option"
  testQueue :: tqstate
  timers :: "string list"

text \<open>
  The responses: 409 with the status of the run in its error message, and 202 with the
  message, the issue id, the position in the queue, the number of running tests and the
  ceiling.
\<close>

datatype response =
    Conflict409 status string
  | Accepted202 string string nat nat int

text \<open>
  The first statement of the task handed to the queue sets the record to \<open>running\<close>; it is
  executed when \<open>processQueue\<close> invokes the task.  \<open>mark_running\<close> does so for the tasks
  that a step of the queue has started.
\<close>

definition mark_running :: "tqstate \<Rightarrow> tqstate \<Rightarrow> (string \<Rightarrow> status option) \<Rightarrow> (string \<Rightarrow> status option)" where
  "mark_running q q' m =
     foldl (\<lambda>m t. m(tid t := Some Running)) m (drop (length (started q)) (started q'))"

definition post_linear :: "string \<Rightarrow> nat \<Rightarrow> coordinator \<Rightarrow> response \<times> coordinator" where
  "post_linear issueId now s =
     (case issueTests s issueId of
        Some existingTest \<Rightarrow>
          if existingTest \<noteq> Completed then (Conflict409 existingTest issueId, s)
          else
            (Accepted202
               (if maxConcurrent (testQueue s) \<le> int (length (running (testQueue s)))
                then ''Tests queued'' else ''Tests started'')
               issueId (length (queue (testQueue s)) + 1) (length (running (testQueue s)))
               (maxConcurrent (testQueue s)),
             s\<lparr>issueTests := mark_running (testQueue s) (enqueue issueId now (testQueue s))
                               ((issueTests s)(issueId := Some Queued)),
               testQueue := enqueue issueId now (testQueue s)\<rparr>)
      | None \<Rightarrow>
          (Accepted202
             (if maxConcurrent (testQueue s) \<le> int (length (running (testQueue s)))
              then ''Tests queued'' else ''Tests started'')
             issueId (length (queue (testQueue s)) + 1) (length (running (testQueue s)))
             (maxConcurrent (testQueue s)),
           s\<lparr>issueTests := mark_running (testQueue s) (enqueue issueId now (testQueue s))
                             ((issueTests s)(issueId := Some Queued)),
             testQueue := enqueue issueId now (testQueue s)\<rparr>))"

text \<open>
  The end of the task with arrival number \<open>k\<close>: its \<open>finally\<close> block sets the record to
  \<open>completed\<close> and starts the timer, then the queue settles the task and may start the
  next one.
\<close>

definition task_finally :: "nat \<Rightarrow> outcome \<Rightarrow> nat \<Rightarrow> coordinator \<Rightarrow> coordinator" where
  "task_finally k out now s =
     (case find (\<lambda>t. seqno t = k) (awaiting (testQueue s)) of
        None \<Rightarrow> s
      | Some t \<Rightarrow>
          s\<lparr>issueTests := mark_running (testQueue s) (settle k out now (testQueue s))
                            ((issueTests s)(tid t := Some Completed)),
            testQueue := settle k out now (testQueue s),
            timers := timers s @ [tid t]\<rparr>)"

text \<open>A timer fires: the record of the issue is deleted.\<close>

definition cleanup_timer :: "string \<Rightarrow> coordinator \<Rightarrow> coordinator" where
  "cleanup_timer issueId s =
     (if issueId \<in> set (timers s)
      then s\<lparr>issueTests := (issueTests s)(issueId := None), timers := remove1 issueId (timers s)\<rparr>
      else s)"

definition newCoordinator :: "int \<Rightarrow> coordinator" where
  "newCoordinator n = \<lparr>issueTests = (\<lambda>i. None), testQueue = newTestQueue n, timers = []\<rparr>"

section \<open>Extraction of acceptance criteria (extractAcceptanceCriteria)\<close>

text \<open>
  Strings are lists of \<open>char\<close>; a \<open>char\<close> stands for a UTF-16 code unit below 256.
  In that range the class \<open>\s\<close> and the characters removed by \<open>trim\<close> are TAB, LF, VT, FF,
  CR, SP and NBSP, and the line terminators, which \<open>.\<close> does not match and at which
  \<open>^\<close> and \<open>$\<close> match under the flag \<open>m\<close>, are LF and CR.
\<close>

definition is_space :: "char \<Rightarrow> bool" where
  "is_space c \<longleftrightarrow>
     c = CHR 0x09 \<or> c = CHR 0x0A \<or> c = CHR 0x0B \<or> c = CHR 0x0C \<or> c = CHR 0x0D
   \<or> c = CHR 0x20 \<or> c = CHR 0xA0"

definition is_line_terminator :: "char \<Rightarrow> bool" where
  "is_line_terminator c \<longleftrightarrow> c = CHR 0x0A \<or> c = CHR 0x0D"

definition is_dot :: "char \<Rightarrow> bool" where
  "is_dot c \<longleftrightarrow> \<not> is_line_terminator c"

definition is_digit :: "char \<Rightarrow> bool" where
  "is_digit c \<longleftrightarrow> c \<in> set ''0123456789''"

definition is_any :: "char \<Rightarrow> bool" where
  "is_any c \<longleftrightarrow> True"

definition is_char :: "char \<Rightarrow> char \<Rightarrow> bool" where
  "is_char a c \<longleftrightarrow> c = a"

text \<open>
  Matching under the flag \<open>i\<close>: both characters are brought to upper case.  The patterns of
  this file hold ASCII characters only, for which the letters \<open>a\<close> to \<open>z\<close> are the only
  code units below 256 that change.
\<close>

definition ascii_upper :: "char \<Rightarrow> char" where
  "ascii_upper c =
     (case map_of (zip ''abcdefghijklmnopqrstuvwxyz'' ''ABCDEFGHIJKLMNOPQRSTUVWXYZ'') c of
        Some u \<Rightarrow> u
      | None \<Rightarrow> c)"

definition is_char_i :: "char \<Rightarrow> char \<Rightarrow> bool" where
  "is_char_i a c \<longleftrightarrow> ascii_upper c = ascii_upper a"

definition trim :: "string \<Rightarrow> string" where
  "trim s = rev (dropWhile is_space (rev (dropWhile is_space s)))"

subsection \<open>Backtracking regular expressions\<close>

text \<open>
  A position in the input is the character before it (\<open>None\<close> at the start of the input)
  and the rest of the input.  A pattern is a function of its continuation: it tries its
  alternatives in the order of the backtracking matcher and returns the first result the
  continuation accepts.
\<close>

type_synonym pos = "char option \<times> string"

text \<open>One character of a class.\<close>

fun re_one :: "(char \<Rightarrow> bool) \<Rightarrow> (pos \<Rightarrow> 'a option) \<Rightarrow> pos \<Rightarrow> 'a option" where
  "re_one C k (p, []) = None"
| "re_one C k (p, c # cs) = (if C c then k (Some c, cs) else None)"

text \<open>The greedy \<open>C*\<close>: one more character first, the continuation otherwise.\<close>

fun re_star :: "(char \<Rightarrow> bool) \<Rightarrow> (pos \<Rightarrow> 'a option) \<Rightarrow> pos \<Rightarrow> 'a option" where
  "re_star C k (p, []) = k (p, [])"
| "re_star C k (p, c # cs) =
     (if C c then (case re_star C k (Some c, cs) of Some r \<Rightarrow> Some r | None \<Rightarrow> k (p, c # cs))
      else k (p, c # cs))"

text \<open>The greedy \<open>C+\<close>.\<close>

definition re_plus :: "(char \<Rightarrow> bool) \<Rightarrow> (pos \<Rightarrow> 'a option) \<Rightarrow> pos \<Rightarrow> 'a option" where
  "re_plus C k = re_one C (re_star C k)"

text \<open>The greedy \<open>C{0,n}\<close>.\<close>

fun re_upto :: "nat \<Rightarrow> (char \<Rightarrow> bool) \<Rightarrow> (pos \<Rightarrow> 'a option) \<Rightarrow> pos \<Rightarrow> 'a option" where
  "re_upto 0 C k x = k x"
| "re_upto (Suc n) C k (p, []) = k (p, [])"
| "re_upto (Suc n) C k (p, c # cs) =
     (if C c then (case re_upto n C k (Some c, cs) of Some r \<Rightarrow> Some r | None \<Rightarrow> k (p, c # cs))
      else k (p, c # cs))"

text \<open>The lazy \<open>C*?\<close>: the continuation first, one more character otherwise.\<close>

fun re_lazy :: "(char \<Rightarrow> bool) \<Rightarrow> (pos \<Rightarrow> 'a option) \<Rightarrow> pos \<Rightarrow> 'a option" where
  "re_lazy C k (p, []) = k (p, [])"
| "re_lazy C k (p, c # cs) =
     (case k (p, c # cs) of Some r \<Rightarrow> Some r
      | None \<Rightarrow> if C c then re_lazy C k (Some c, cs) else None)"

text \<open>A literal, under the flag \<open>i\<close>.\<close>

fun re_lit_i :: "string \<Rightarrow> (pos \<Rightarrow> 'a option) \<Rightarrow> pos \<Rightarrow> 'a option" where
  "re_lit_i [] k x = k x"
| "re_lit_i (a # as) k x = re_one (is_char_i a) (re_lit_i as k) x"

text \<open>An alternative \<open>A|B\<close>.\<close>

definition re_alt ::
  "((pos \<Rightarrow> 'a option) \<Rightarrow> pos \<Rightarrow> 'a option) \<Rightarrow> ((pos \<Rightarrow> 'a option) \<Rightarrow> pos \<Rightarrow> 'a option)
   \<Rightarrow> (pos \<Rightarrow> 'a option) \<Rightarrow> pos \<Rightarrow> 'a option" where
  "re_alt A B k x = (case A k x of Some r \<Rightarrow> Some r | None \<Rightarrow> B k x)"

text \<open>The assertions \<open>^\<close> and \<open>$\<close>, without and with the flag \<open>m\<close>.\<close>

definition re_bos :: "(pos \<Rightarrow> 'a option) \<Rightarrow> pos \<Rightarrow> 'a option" where
  "re_bos k x = (case fst x of None \<Rightarrow> k x | Some c \<Rightarrow> None)"

definition re_eos :: "(pos \<Rightarrow> 'a option) \<Rightarrow> pos \<Rightarrow> 'a option" where
  "re_eos k x = (case snd x of [] \<Rightarrow> k x | c # cs \<Rightarrow> None)"

definition re_bol :: "(pos \<Rightarrow> 'a option) \<Rightarrow> pos \<Rightarrow> 'a option" where
  "re_bol k x = (case fst x of None \<Rightarrow> k x | Some c \<Rightarrow> if is_line_terminator c then k x else None)"

definition re_eol :: "(pos \<Rightarrow> 'a option) \<Rightarrow> pos \<Rightarrow> 'a option" where
  "re_eol k x = (case snd x of [] \<Rightarrow> k x | c # cs \<Rightarrow> if is_line_terminator c then k x else None)"

text \<open>The lookahead \<open>(?=A)\<close>.\<close>

definition re_lookahead ::
  "((pos \<Rightarrow> unit option) \<Rightarrow> pos \<Rightarrow> unit option) \<Rightarrow> (pos \<Rightarrow> 'a option) \<Rightarrow> pos \<Rightarrow> 'a option" where
  "re_lookahead A k x = (case A (\<lambda>y. Some ()) x of Some u \<Rightarrow> k x | None \<Rightarrow> None)"

text \<open>A capturing group: the continuation receives the text the group has matched.\<close>

definition re_group ::
  "((pos \<Rightarrow> 'a option) \<Rightarrow> pos \<Rightarrow> 'a option) \<Rightarrow> (string \<Rightarrow> pos \<Rightarrow> 'a option) \<Rightarrow> pos \<Rightarrow> 'a option" where
  "re_group A k x = A (\<lambda>y. k (take (length (snd x) - length (snd y)) (snd x)) y) x"

text \<open>
  \<open>String.prototype.match\<close> without the flag \<open>g\<close>: the match at the leftmost position
  that has one.
\<close>

fun match_first :: "(pos \<Rightarrow> 'a option) \<Rightarrow> pos \<Rightarrow> 'a option" where
  "match_first r (p, []) = r (p, [])"
| "match_first r (p, c # cs) =
     (case r (p, c # cs) of Some x \<Rightarrow> Some x | None \<Rightarrow> match_first r (Some c, cs))"

text \<open>
  The loop \<open>while ((match = re.exec(text)) !== null)\<close> of a pattern with the flag \<open>g\<close>: the
  first capture group of every match, each search starting where the match before it
  ended.  A match that consumed nothing would leave \<open>lastIndex\<close> where it was; the patterns
  of this file consume at least one character (lemma \<open>item_consumes\<close>).
\<close>

function exec_all :: "(pos \<Rightarrow> (string \<times> pos) option) \<Rightarrow> pos \<Rightarrow> string list" where
  "exec_all r (p, s) =
     (case r (p, s) of
        Some (cap, (p', s')) \<Rightarrow> if length s' < length s then cap # exec_all r (p', s') else []
      | None \<Rightarrow> (case s of [] \<Rightarrow> [] | c # cs \<Rightarrow> exec_all r (Some c, cs)))"
  by pat_completeness auto
termination
  by (relation "measure (\<lambda>(r, x). length (snd x))") auto

subsection \<open>The patterns of the source\<close>

text \<open>\<open>/(?:^|\n)#{1,3}\s*acceptance\s*criteria\s*\n([\s\S]*?)(?=\n#{1,3}\s|\n\n\n|$)/i\<close>\<close>

definition section_end :: "(pos \<Rightarrow> unit option) \<Rightarrow> pos \<Rightarrow> unit option" where
  "section_end =
     re_alt (\<lambda>k. re_one (is_char CHR 0x0A) (re_one (is_char CHR ''#'') (re_upto 2 (is_char CHR ''#'') (re_one is_space k))))
    (re_alt (\<lambda>k. re_one (is_char CHR 0x0A) (re_one (is_char CHR 0x0A) (re_one (is_char CHR 0x0A) k)))
         re_eos)"

text \<open>The capture group \<open>([\s\S]*?)\<close> and the lookahead that end the pattern.\<close>

definition section_body :: "pos \<Rightarrow> string option" where
  "section_body = re_group (re_lazy is_any) (\<lambda>cap. re_lookahead section_end (\<lambda>y. Some cap))"

definition acSectionRegex :: "pos \<Rightarrow> string option" where
  "acSectionRegex =
     re_alt re_bos (re_one (is_char CHR 0x0A))
       (re_one (is_char CHR ''#'') (re_upto 2 (is_char CHR ''#'')
       (re_star is_space (re_lit_i ''acceptance''
       (re_star is_space (re_lit_i ''criteria''
       (re_star is_space (re_one (is_char CHR 0x0A) section_body))))))))"

text \<open>The capture group \<open>(.+)\<close> and the \<open>$\<close> that end the three item patterns.\<close>

definition item_text :: "pos \<Rightarrow> (string \<times> pos) option" where
  "item_text = re_group (re_plus is_dot) (\<lambda>cap. re_eol (\<lambda>y. Some (cap, y)))"

text \<open>\<open>/^[\s]*[-*]\s*\[[ x]\]\s*(.+)$/gim\<close>\<close>

definition is_bullet :: "char \<Rightarrow> bool" where
  "is_bullet c \<longleftrightarrow> c = CHR ''-'' \<or> c = CHR ''*''"

definition is_box :: "char \<Rightarrow> bool" where
  "is_box c \<longleftrightarrow> is_char_i CHR '' '' c \<or> is_char_i CHR ''x'' c"

definition checkboxRegex :: "pos \<Rightarrow> (string \<times> pos) option" where
  "checkboxRegex =
     re_bol (re_star is_space (re_one is_bullet (re_star is_space (re_one (is_char CHR ''['')
       (re_one is_box (re_one (is_char CHR '']'') (re_star is_space item_text)))))))"

text \<open>\<open>/^[\s]*\d+[.)]\s*(.+)$/gim\<close>\<close>

definition is_delimiter :: "char \<Rightarrow> bool" where
  "is_delimiter c \<longleftrightarrow> c = CHR ''.'' \<or> c = CHR '')''"

definition numberedRegex :: "pos \<Rightarrow> (string \<times> pos) option" where
  "numberedRegex =
     re_bol (re_star is_space (re_plus is_digit (re_one is_delimiter (re_star is_space item_text))))"

text \<open>\<open>/^[\s]*[-*]\s+(.+)$/gim\<close>\<close>

definition bulletRegex :: "pos \<Rightarrow> (string \<times> pos) option" where
  "bulletRegex = re_bol (re_star is_space (re_one is_bullet (re_plus is_space item_text)))"

subsection \<open>The function\<close>

text \<open>
  The body of each \<open>while\<close> loop: the capture is trimmed and pushed unless it is empty or
  already among the criteria.
\<close>

fun collect :: "string list \<Rightarrow> string list \<Rightarrow> string list" where
  "collect criteria [] = criteria"
| "collect criteria (m # ms) =
     (let criterion = trim m
      in if criterion \<noteq> [] \<and> criterion \<notin> set criteria
         then collect (criteria @ [criterion]) ms
         else collect criteria ms)"

definition acSectionMatch :: "string \<Rightarrow> string option" where
  "acSectionMatch description = match_first acSectionRegex (None, description)"

definition textToSearch :: "string \<Rightarrow> string" where
  "textToSearch description =
     (case acSectionMatch description of Some body \<Rightarrow> body | None \<Rightarrow> description)"

text \<open>The argument is \<open>None\<close> for \<open>null\<close> and \<open>undefined\<close>.\<close>

definition extractAcceptanceCriteria :: "string option \<Rightarrow> string list" where
  "extractAcceptanceCriteria description =
     (case description of
        None \<Rightarrow> []
      | Some d \<Rightarrow>
          if d = [] then []
          else
            let criteria = collect [] (exec_all checkboxRegex (None, textToSearch d));
                criteria =
                  (if criteria = [] then collect criteria (exec_all numberedRegex (None, textToSearch d))
                   else criteria);
                criteria =
                  (if criteria = [] \<and> acSectionMatch d \<noteq> None
                   then collect criteria (exec_all bulletRegex (None, textToSearch d))
                   else criteria)
            in criteria)"

subsection \<open>Notions used to state the properties of the extraction\<close>

text \<open>The character before the position reached from \<open>p\<close> by reading \<open>w\<close>.\<close>

definition after :: "char option \<Rightarrow> string \<Rightarrow> char option" where
  "after p w = (if w = [] then p else Some (last w))"

text \<open>A pattern hands to its continuation a position further on in the same input.\<close>

definition passes :: "((pos \<Rightarrow> 'a option) \<Rightarrow> pos \<Rightarrow> 'a option) \<Rightarrow> bool" where
  "passes R \<longleftrightarrow>
     (\<forall>k p s r. R k (p, s) = Some r \<longrightarrow> (\<exists>w t. s = w @ t \<and> k (after p w, t) = Some r))"

text \<open>
  The strings of a list occur in a text one after the other, without overlap, in the order
  of the list.
\<close>

fun appear_in_order :: "string list \<Rightarrow> string \<Rightarrow> bool" where
  "appear_in_order [] t = True"
| "appear_in_order (c # cs) t = (\<exists>pre post. t = pre @ c @ post \<and> appear_in_order cs post)"

text \<open>A list without the later occurrences of each element.\<close>

definition first_occurrences :: "'a list \<Rightarrow> 'a list" where
  "first_occurrences xs = rev (remdups (rev xs))"

text \<open>The trimmed, non-empty captures of a list of matches.\<close>

definition candidates :: "string list \<Rightarrow> string list" where
  "candidates ms = filter (\<lambda>c. c \<noteq> []) (map trim ms)"

text \<open>A match of an item pattern ends with its capture, which is not empty.\<close>

definition item_pattern :: "(pos \<Rightarrow> (string \<times> pos) option) \<Rightarrow> bool" where
  "item_pattern r \<longleftrightarrow>
     (\<forall>p s cap y. r (p, s) = Some (cap, y) \<longrightarrow>
        (\<exists>w. s = w @ cap @ snd y) \<and> cap \<noteq> [])"

text \<open>
  Where a section body ends: at the end of the text, before three line breaks, and before a
  line break that is followed by one, two or three \<open>#\<close> and a whitespace character.
\<close>

definition ends_section :: "string \<Rightarrow> bool" where
  "ends_section t \<longleftrightarrow>
     t = [] \<or> take 3 t = [CHR 0x0A, CHR 0x0A, CHR 0x0A]
   \<or> (\<exists>h \<in> {1, 2, 3}. take (Suc h) t = CHR 0x0A # replicate h CHR ''#''
          \<and> Suc h < length t \<and> is_space (t ! Suc h))"

text \<open>
  The text the section pattern reads before the body: one to three \<open>#\<close>, the words
  \<open>acceptance\<close> and \<open>criteria\<close> in any case, each after optional whitespace, then
  optional whitespace and a line break.
\<close>

definition ac_heading :: "string \<Rightarrow> bool" where
  "ac_heading h \<longleftrightarrow>
     (\<exists>hashes w0 a w1 c w2.
        h = hashes @ w0 @ a @ w1 @ c @ w2 @ [CHR 0x0A]
      \<and> hashes \<in> {''#'', ''##'', ''###''}
      \<and> list_all is_space w0 \<and> list_all2 is_char_i ''acceptance'' a
      \<and> list_all is_space w1 \<and> list_all2 is_char_i ''criteria'' c
      \<and> list_all is_space w2)"

text \<open>
  The section body as the specification words it, for a heading of the given depth and the
  text right after the heading line: it ends at the end of the text, before two consecutive
  blank lines, and before a heading line of the same or a smaller depth.
\<close>

fun spec_heading_end :: "nat \<Rightarrow> string \<Rightarrow> bool" where
  "spec_heading_end 0 t = False"
| "spec_heading_end (Suc n) t =
     ((take (Suc (Suc n)) t = CHR 0x0A # replicate (Suc n) CHR ''#''
        \<and> Suc (Suc n) < length t \<and> is_space (t ! Suc (Suc n)))
      \<or> spec_heading_end n t)"

definition spec_section_end :: "nat \<Rightarrow> string \<Rightarrow> bool" where
  "spec_section_end depth t \<longleftrightarrow>
     t = [] \<or> take 3 t = [CHR 0x0A, CHR 0x0A, CHR 0x0A] \<or> spec_heading_end depth t"

fun spec_section_body :: "nat \<Rightarrow> string \<Rightarrow> string" where
  "spec_section_body depth [] = []"
| "spec_section_body depth (c # cs) =
     (if spec_section_end depth (c # cs) then [] else c # spec_section_body depth cs)"

section \<open>Properties of the queue\<close>

lemma findIndex_range: "findIndex P xs = - 1 \<or> (0 \<le> findIndex P xs \<and> findIndex P xs < int (length xs))"
  by (induction xs) (auto simp: Let_def)

lemma findIndex_none: "findIndex P xs = - 1 \<longleftrightarrow> (\<forall>x \<in> set xs. \<not> P x)"
proof (induction xs)
  case Nil
  show ?case by simp
next
  case (Cons x xs)
  have "findIndex P xs + 1 \<noteq> - 1"
    using findIndex_range [of P xs] by auto
  with Cons show ?case by (auto simp: Let_def)
qed

lemma findIndex_first:
  "\<exists>x \<in> set xs. P x \<Longrightarrow>
   \<exists>k < length xs. findIndex P xs = int k \<and> P (xs ! k) \<and> (\<forall>j < k. \<not> P (xs ! j))"
proof (induction xs)
  case Nil
  then show ?case by simp
next
  case (Cons x xs)
  show ?case
  proof (cases "P x")
    case True
    then show ?thesis by auto
  next
    case False
    with Cons.prems have "\<exists>y \<in> set xs. P y" by auto
    from Cons.IH [OF this] obtain k where k: "k < length xs" "findIndex P xs = int k"
      "P (xs ! k)" "\<forall>j < k. \<not> P (xs ! j)" by blast
    have "\<forall>j < Suc k. \<not> P ((x # xs) ! j)"
      using False k(4) by (auto simp: less_Suc_eq_0_disj)
    with False k show ?thesis
      by (intro exI [of _ "Suc k"]) (auto simp: Let_def)
  qed
qed

lemma run_Nil: "run [] s = s"
  by (simp add: run_def)

lemma run_snoc: "run (evs @ [e]) s = step (run evs s) e"
  by (simp add: run_def)

lemma run_Cons: "run (e # evs) s = run evs (step s e)"
  by (simp add: run_def)

lemma run_append: "run (xs @ ys) s = run ys (run xs s)"
  by (simp add: run_def)

lemma length_update_le: "length (AList.update k v al) \<le> Suc (length al)"
  by (induction al) auto

lemma length_update_new:
  "k \<notin> fst ` set al \<Longrightarrow> AList.update k v al = al @ [(k, v)]"
  by (induction al) auto

lemma length_delete_present:
  "distinct (map fst al) \<Longrightarrow> k \<in> fst ` set al \<Longrightarrow> Suc (length (AList.delete k al)) = length al"
proof (induction al)
  case Nil
  then show ?case by simp
next
  case (Cons p al)
  then show ?case by (cases "fst p = k") (auto simp: rev_image_eqI)
qed

lemma maxConcurrent_processQueue: "maxConcurrent (processQueue now s) = maxConcurrent s"
  by (simp add: processQueue_def split: list.splits)

lemma promises_processQueue: "promises (processQueue now s) = promises s"
  by (simp add: processQueue_def split: list.splits)

lemma nextSeq_processQueue: "nextSeq (processQueue now s) = nextSeq s"
  by (simp add: processQueue_def split: list.splits)

lemma started_queue_processQueue:
  "started (processQueue now s) @ queue (processQueue now s) = started s @ queue s"
  by (simp add: processQueue_def split: list.splits)

lemma distinct_processQueue:
  "distinct (map fst (running s)) \<Longrightarrow> distinct (map fst (running (processQueue now s)))"
  by (simp add: processQueue_def AList.distinct_update split: list.splits)

lemma bounded_processQueue:
  "int (length (running s)) \<le> maxConcurrent s \<Longrightarrow>
   int (length (running (processQueue now s))) \<le> maxConcurrent s"
proof (cases "maxConcurrent s \<le> int (length (running s))")
  case True
  then show "int (length (running s)) \<le> maxConcurrent s \<Longrightarrow> ?thesis" by (simp add: processQueue_def)
next
  case False
  assume "int (length (running s)) \<le> maxConcurrent s"
  show ?thesis
  proof (cases "queue s")
    case Nil
    with False show ?thesis by (simp add: processQueue_def)
  next
    case (Cons t rest)
    have "int (length (AList.update (tid t) now (running s))) \<le> int (Suc (length (running s)))"
      using length_update_le [of "tid t" now "running s"] by (simp only: of_nat_le_iff)
    with False Cons show ?thesis by (simp add: processQueue_def)
  qed
qed

lemma qinv_processQueue: "qinv s \<Longrightarrow> qinv (processQueue now s)"
  by (simp add: qinv_def distinct_processQueue bounded_processQueue maxConcurrent_processQueue)

lemma qinv_enqueue: "qinv s \<Longrightarrow> qinv (enqueue i now s)"
  unfolding enqueue_def by (rule qinv_processQueue) (simp add: qinv_def)





lemma maxConcurrent_step: "maxConcurrent (step s e) = maxConcurrent s"
  by (cases e) (simp_all add: enqueue_def settle_def maxConcurrent_processQueue split: option.splits)

lemma maxConcurrent_run: "maxConcurrent (run evs s) = maxConcurrent s"
  by (induction evs arbitrary: s) (simp_all add: run_Nil run_Cons maxConcurrent_step)



subsection \<open>Order of admission\<close>

lemma arrival_inv_processQueue: "arrival_inv s \<Longrightarrow> arrival_inv (processQueue now s)"
  unfolding arrival_inv_def
  by (simp only: started_queue_processQueue nextSeq_processQueue)

lemma arrival_inv_enqueue: "arrival_inv s \<Longrightarrow> arrival_inv (enqueue i now s)"
  unfolding enqueue_def by (rule arrival_inv_processQueue) (simp add: arrival_inv_def)

lemma arrival_inv_settle:
  assumes "arrival_inv s"
  shows "arrival_inv (settle k out now s)"
proof (cases "find (\<lambda>t. seqno t = k) (awaiting s)")
  case None
  with assms show ?thesis by (simp add: settle_def)
next
  case (Some t)
  have "arrival_inv (s\<lparr>promises := (promises s)(k := Some (settlement_of out)),
               running := AList.delete (tid t) (running s)\<rparr>)"
    using assms by (simp add: arrival_inv_def)
  from arrival_inv_processQueue [OF this] Some show ?thesis
    by (simp add: settle_def)
qed

lemma arrival_inv_step: "arrival_inv s \<Longrightarrow> arrival_inv (step s e)"
  by (cases e) (simp_all add: arrival_inv_enqueue arrival_inv_settle)

lemma arrival_inv_run: "arrival_inv s \<Longrightarrow> arrival_inv (run evs s)"
  by (induction evs arbitrary: s) (simp_all add: run_Nil run_Cons arrival_inv_step)

lemma arrival_inv_new: "arrival_inv (newTestQueue n)"
  by (simp add: arrival_inv_def newTestQueue_def)

lemma arrival_inv_sorted:
  assumes "arrival_inv s"
  shows "sorted_wrt (\<lambda>a b. seqno a < seqno b) (started s @ queue s)"
proof -
  have "sorted_wrt (<) (map seqno (started s @ queue s))"
    using assms by (simp add: arrival_inv_def del: map_append)
  then show ?thesis by (simp only: sorted_wrt_map)
qed

subsection \<open>Tasks in progress and the running set\<close>

lemma distinct_map_eq:
  "distinct (map f xs) \<Longrightarrow> x \<in> set xs \<Longrightarrow> y \<in> set xs \<Longrightarrow> f x = f y \<Longrightarrow> x = y"
  by (meson distinct_map inj_on_eq_iff)

lemma map_filter_removeAll: "map f (filter (\<lambda>u. f u \<noteq> x) xs) = removeAll x (map f xs)"
  by (induction xs) auto

lemma distinct_filter_append:
  assumes "distinct (map f (xs @ ys))"
  shows "distinct (map f (filter P xs @ ys))"
proof -
  from assms have "distinct (map f xs)" "distinct (map f ys)" "f ` set xs \<inter> f ` set ys = {}"
    by simp_all
  moreover from this(1) have "distinct (map f (filter P xs))" by (rule distinct_map_filter)
  moreover have "f ` set (filter P xs) \<subseteq> f ` set xs" by auto
  ultimately show ?thesis by auto
qed

lemma inflight_processQueue:
  assumes inv: "inflight_inv s"
    and ds: "distinct (map seqno (started s @ queue s))"
  shows "inflight_inv (processQueue now s)"
proof (cases "maxConcurrent s \<le> int (length (running s)) \<or> queue s = []")
  case True
  then have "processQueue now s = s" by (auto simp: processQueue_def)
  with inv show ?thesis by simp
next
  case False
  then obtain h rest where q: "queue s = h # rest" by (cases "queue s") auto
  have p: "processQueue now s = s\<lparr>queue := rest,
            running := AList.update (tid h) now (running s),
            started := started s @ [h]\<rparr>"
    using False q by (simp add: processQueue_def)
  have "seqno h \<notin> seqno ` set (started s)" using ds q by auto
  with inv have unsettled: "promises s (seqno h) = None"
    unfolding inflight_inv_def by blast
  have dt: "distinct (map tid (awaiting s @ h # rest))"
    using inv q by (simp add: inflight_inv_def)
  then have "tid h \<notin> tid ` set (awaiting s)" by auto
  then have "tid h \<notin> fst ` set (running s)"
    using inv unfolding inflight_inv_def by (metis list.set_map)
  then have u: "AList.update (tid h) now (running s) = running s @ [(tid h, now)]"
    by (rule length_update_new)
  have a: "awaiting (processQueue now s) = awaiting s @ [h]"
    unfolding p using unsettled by (simp add: awaiting_def)
  have "map fst (running (processQueue now s)) = map tid (awaiting (processQueue now s))"
    unfolding a using inv by (simp add: p u inflight_inv_def)
  moreover have "distinct (map tid (awaiting (processQueue now s) @ queue (processQueue now s)))"
    unfolding a using dt by (simp add: p)
  moreover have "\<forall>k. promises (processQueue now s) k \<noteq> None
      \<longrightarrow> k \<in> seqno ` set (started (processQueue now s))"
    using inv by (auto simp: p inflight_inv_def)
  ultimately show ?thesis by (simp add: inflight_inv_def)
qed

lemma inflight_enqueue:
  assumes "inflight_inv s" "arrival_inv s"
    and "i \<notin> set (map tid (awaiting s @ queue s))"
  shows "inflight_inv (enqueue i now s)"
  unfolding enqueue_def
proof (rule inflight_processQueue)
  let ?s1 = "s\<lparr>queue := queue s @ [\<lparr>tid = i, seqno = nextSeq s, queuedAt = now\<rparr>],
          nextSeq := Suc (nextSeq s)\<rparr>"
  have "awaiting ?s1 = awaiting s" by (simp add: awaiting_def)
  then show "inflight_inv ?s1" using assms(1,3) by (simp add: inflight_inv_def)
  have "map seqno (started ?s1 @ queue ?s1) = [0..<Suc (nextSeq s)]"
    using assms(2) by (simp add: arrival_inv_def)
  then show "distinct (map seqno (started ?s1 @ queue ?s1))"
    by (simp only: distinct_upt)
qed

lemma inflight_settle:
  assumes inv: "inflight_inv s" and arr: "arrival_inv s"
  shows "inflight_inv (settle k out now s)"
proof (cases "find (\<lambda>t. seqno t = k) (awaiting s)")
  case None
  with inv show ?thesis by (simp add: settle_def)
next
  case (Some t)
  let ?s1 = "s\<lparr>promises := (promises s)(k := Some (settlement_of out)),
               running := AList.delete (tid t) (running s)\<rparr>"
  have ds: "distinct (map seqno (started s @ queue s))"
    using arr by (simp only: arrival_inv_def distinct_upt)
  have dt: "distinct (map tid (awaiting s @ queue s))"
    using inv by (simp add: inflight_inv_def)
  from Some have t: "t \<in> set (awaiting s)" "seqno t = k"
    by (auto simp: find_Some_iff in_set_conv_nth)
  then have ts: "t \<in> set (started s)" by (simp add: awaiting_def)
  have same: "seqno u \<noteq> k \<longleftrightarrow> tid u \<noteq> tid t" if "u \<in> set (awaiting s)" for u
  proof -
    from that have us: "u \<in> set (started s)" by (simp add: awaiting_def)
    have d1: "distinct (map seqno (started s))" and d2: "distinct (map tid (awaiting s))"
      using ds dt by simp_all
    from distinct_map_eq [OF d1 us ts] distinct_map_eq [OF d2 that t(1)] t(2)
    show ?thesis by auto
  qed
  have "awaiting ?s1 = filter (\<lambda>u. seqno u \<noteq> k) (awaiting s)"
    by (auto simp: awaiting_def intro: filter_cong)
  also have "\<dots> = filter (\<lambda>u. tid u \<noteq> tid t) (awaiting s)"
    using same by (intro filter_cong) auto
  finally have aw: "awaiting ?s1 = filter (\<lambda>u. tid u \<noteq> tid t) (awaiting s)" .
  then have "map tid (awaiting ?s1) = removeAll (tid t) (map tid (awaiting s))"
    by (simp add: map_filter_removeAll)
  moreover have "map fst (running ?s1) = removeAll (tid t) (map fst (running s))"
    by (simp add: AList.delete_keys)
  ultimately have "map fst (running ?s1) = map tid (awaiting ?s1)"
    using inv by (simp add: inflight_inv_def)
  moreover have "distinct (map tid (awaiting ?s1 @ queue ?s1))"
    unfolding aw using distinct_filter_append [OF dt] by simp
  moreover have "\<forall>j. promises ?s1 j \<noteq> None \<longrightarrow> j \<in> seqno ` set (started ?s1)"
    using inv ts t(2) by (auto simp: inflight_inv_def)
  ultimately have "inflight_inv ?s1" by (simp add: inflight_inv_def)
  moreover have "distinct (map seqno (started ?s1 @ queue ?s1))" using ds by simp
  ultimately have "inflight_inv (processQueue now ?s1)" by (rule inflight_processQueue)
  with Some show ?thesis by (simp add: settle_def)
qed

lemma inflight_run:
  assumes "inflight_inv s" "arrival_inv s" "fresh_ids s evs"
  shows "inflight_inv (run evs s)"
  using assms
proof (induction evs arbitrary: s)
  case Nil
  then show ?case by (simp add: run_Nil)
next
  case (Cons e evs)
  show ?case
  proof (cases e)
    case (Enqueue i now)
    with Cons.prems have f: "i \<notin> set (map tid (awaiting s @ queue s))"
      and r: "fresh_ids (enqueue i now s) evs"
      by simp_all
    have "inflight_inv (enqueue i now s)"
      using Cons.prems(1,2) f by (rule inflight_enqueue)
    moreover have "arrival_inv (enqueue i now s)"
      using Cons.prems(2) by (rule arrival_inv_enqueue)
    ultimately have "inflight_inv (run evs (enqueue i now s))"
      using r by (rule Cons.IH)
    with Enqueue show ?thesis by (simp add: run_Cons)
  next
    case (Settle k out now)
    with Cons.prems have r: "fresh_ids (settle k out now s) evs" by simp
    have "inflight_inv (settle k out now s)"
      using Cons.prems(1,2) by (rule inflight_settle)
    moreover have "arrival_inv (settle k out now s)"
      using Cons.prems(2) by (rule arrival_inv_settle)
    ultimately have "inflight_inv (run evs (settle k out now s))"
      using r by (rule Cons.IH)
    with Settle show ?thesis by (simp add: run_Cons)
  qed
qed

lemma inflight_new: "inflight_inv (newTestQueue n)"
  by (simp add: inflight_inv_def newTestQueue_def awaiting_def)


lemma awaiting_not_queued:
  assumes "inflight_inv s" "t \<in> set (awaiting s)"
  shows "\<not> isQueued s (tid t)"
proof -
  from assms(1) have "distinct (map tid (awaiting s @ queue s))" by (simp add: inflight_inv_def)
  then have "tid ` set (awaiting s) \<inter> tid ` set (queue s) = {}" by simp
  with assms(2) have "tid t \<notin> tid ` set (queue s)" by blast
  then have "\<forall>u \<in> set (queue s). tid u \<noteq> tid t" by (auto simp: image_iff)
  then show ?thesis by (simp add: isQueued_def list_ex_iff)
qed




text \<open>
  Claim C2.  Tasks are started in the order of their arrival: after any sequence of
  submissions and settlements, the tasks started so far followed by the waiting line are
  exactly the arrivals \<open>0, 1, 2, \<dots>\<close> in order.  Hence no task has been started while a
  task that arrived before it is still waiting.
\<close>

theorem fifo_admission:
  assumes "s = run evs (newTestQueue N)"
  shows "map seqno (started s @ queue s) = [0..<nextSeq s]
       \<and> sorted_wrt (\<lambda>a b. seqno a < seqno b) (started s)
       \<and> sorted_wrt (\<lambda>a b. seqno a < seqno b) (queue s)
       \<and> (\<forall>b \<in> set (started s). \<forall>a \<in> set (queue s). seqno b < seqno a)"
proof -
  have inv: "arrival_inv s"
    unfolding assms by (rule arrival_inv_run) (rule arrival_inv_new)
  from arrival_inv_sorted [OF inv] inv show ?thesis
    by (simp add: sorted_wrt_append arrival_inv_def)
qed

theorem fifo_admission_witness:
  "map seqno (started (run [Enqueue ''a'' 0, Enqueue ''b'' 1, Enqueue ''c'' 2,
        Settle 0 (Returned JNull) 3] (newTestQueue 1))) = [0, 1]
   \<and> map seqno (queue (run [Enqueue ''a'' 0, Enqueue ''b'' 1, Enqueue ''c'' 2,
        Settle 0 (Returned JNull) 3] (newTestQueue 1))) = [2]
   \<and> nextSeq (run [Enqueue ''a'' 0, Enqueue ''b'' 1, Enqueue ''c'' 2,
        Settle 0 (Returned JNull) 3] (newTestQueue 1)) = 3"
  using fifo_admission [OF refl, of "[Enqueue ''a'' 0, Enqueue ''b'' 1, Enqueue ''c'' 2,
        Settle 0 (Returned JNull) 3]" 1]
  by (simp add: run_def enqueue_def processQueue_def settle_def awaiting_def newTestQueue_def)

subsection \<open>Position reports\<close>

lemma isRunning_keys: "isRunning s i \<longleftrightarrow> i \<in> fst ` set (running s)"
  by (simp add: isRunning_def map_of_eq_None_iff)

lemma isQueued_ids: "isQueued s i \<longleftrightarrow> (\<exists>u \<in> set (queue s). tid u = i)"
  by (simp add: isQueued_def list_ex_iff)

lemma getPosition_present:
  assumes "isRunning s i \<or> isQueued s i"
  shows "getPosition s i \<noteq> - 1"
proof (cases "isRunning s i")
  case True
  then show ?thesis by (simp add: getPosition_def)
next
  case False
  with assms have "\<exists>x \<in> set (queue s). tid x = i" by (simp add: isQueued_ids)
  from findIndex_first [of "queue s" "\<lambda>u. tid u = i", OF this]
  obtain k where "findIndex (\<lambda>u. tid u = i) (queue s) = int k" by blast
  with False show ?thesis by (simp add: getPosition_def)
qed

lemma getPosition_settled:
  assumes t: "find (\<lambda>t. seqno t = k) (awaiting s) = Some t"
  shows "getPosition (settle k out now s) (tid t) = - 1 \<longleftrightarrow> \<not> isQueued s (tid t)"
proof -
  let ?s1 = "s\<lparr>promises := (promises s)(k := Some (settlement_of out)),
               running := AList.delete (tid t) (running s)\<rparr>"
  have s': "settle k out now s = processQueue now ?s1"
    using t by (simp add: settle_def)
  have absent: "getPosition (settle k out now s) (tid t) = - 1" if nq: "\<not> isQueued s (tid t)"
  proof -
    have nr1: "\<not> isRunning ?s1 (tid t)"
      by (simp add: isRunning_keys AList.delete_notin_dom)
    have nq1: "\<not> isQueued ?s1 (tid t)"
      using nq by (simp add: isQueued_def)
    have nr: "\<not> isRunning (processQueue now ?s1) (tid t)"
      using nr1 nq1
      by (auto simp: processQueue_def isRunning_keys isQueued_ids AList.dom_update
          split: list.splits)
    have "\<not> isQueued (processQueue now ?s1) (tid t)"
      using nq1 by (auto simp: processQueue_def isQueued_ids split: list.splits)
    then have "\<forall>u \<in> set (queue (processQueue now ?s1)). tid u \<noteq> tid t"
      unfolding isQueued_ids by simp
    then have "findIndex (\<lambda>u. tid u = tid t) (queue (processQueue now ?s1)) = - 1"
      by (simp only: findIndex_none)
    with nr show ?thesis unfolding s' by (simp add: getPosition_def)
  qed
  have present: "getPosition (settle k out now s) (tid t) \<noteq> - 1" if "isQueued s (tid t)"
  proof -
    from that have q1: "isQueued ?s1 (tid t)" by (simp add: isQueued_def)
    have "isRunning (processQueue now ?s1) (tid t) \<or> isQueued (processQueue now ?s1) (tid t)"
    proof (cases "maxConcurrent ?s1 \<le> int (length (running ?s1)) \<or> queue ?s1 = []")
      case True
      then have "processQueue now ?s1 = ?s1" by (auto simp: processQueue_def)
      with q1 show ?thesis by simp
    next
      case False
      then obtain h rest where q: "queue ?s1 = h # rest" by (cases "queue ?s1") auto
      have p: "processQueue now ?s1 = ?s1\<lparr>queue := rest,
          running := AList.update (tid h) now (running ?s1),
          started := started ?s1 @ [h]\<rparr>"
        using False q by (simp add: processQueue_def)
      from q1 q have "tid h = tid t \<or> (\<exists>u \<in> set rest. tid u = tid t)"
        by (auto simp: isQueued_ids)
      then show ?thesis
        unfolding p by (auto simp: isRunning_keys isQueued_ids AList.dom_update)
    qed
    from getPosition_present [OF this] show ?thesis unfolding s' .
  qed
  from absent present show ?thesis by blast
qed

text \<open>
  Claim C3, as the code has it.  \<open>getPosition\<close> is 0 for an id in the running set; for an
  id that is not running but waiting it is one more than the index of the first waiting
  task with that id, and the waiting line of a reachable state is in the order of arrival;
  for an id that is neither running nor waiting it is -1.  Right after the settlement of a
  task, its id reports -1 exactly when no waiting task carries the same id.  That is so
  whenever no id is submitted while a task with that id is waiting or in progress.
\<close>

theorem getPosition_cases:
  "(isRunning s i \<longrightarrow> getPosition s i = 0)
 \<and> (\<not> isRunning s i \<and> isQueued s i \<longrightarrow>
      (\<exists>k < length (queue s). getPosition s i = int k + 1 \<and> tid (queue s ! k) = i
          \<and> (\<forall>j < k. tid (queue s ! j) \<noteq> i)))
 \<and> (\<not> isRunning s i \<and> \<not> isQueued s i \<longrightarrow> getPosition s i = - 1)
 \<and> (s = run evs (newTestQueue N) \<longrightarrow> sorted_wrt (\<lambda>a b. seqno a < seqno b) (queue s))
 \<and> (find (\<lambda>u. seqno u = k) (awaiting s) = Some t \<longrightarrow>
      (getPosition (settle k out now s) (tid t) = - 1 \<longleftrightarrow> \<not> isQueued s (tid t)))
 \<and> (s = run evs (newTestQueue N) \<and> fresh_ids (newTestQueue N) evs
      \<and> find (\<lambda>u. seqno u = k) (awaiting s) = Some t \<longrightarrow>
      getPosition (settle k out now s) (tid t) = - 1)"
proof -
  have a: "getPosition s i = 0" if "isRunning s i"
    using that by (simp add: getPosition_def)
  have b: "\<exists>k < length (queue s). getPosition s i = int k + 1 \<and> tid (queue s ! k) = i
          \<and> (\<forall>j < k. tid (queue s ! j) \<noteq> i)"
    if "\<not> isRunning s i" "isQueued s i"
  proof -
    from that(2) have "\<exists>x \<in> set (queue s). tid x = i"
      by (simp add: isQueued_ids)
    from findIndex_first [of "queue s" "\<lambda>u. tid u = i", OF this]
    obtain k where "k < length (queue s)" "findIndex (\<lambda>u. tid u = i) (queue s) = int k"
      "tid (queue s ! k) = i" "\<forall>j < k. tid (queue s ! j) \<noteq> i" by blast
    with that(1) show ?thesis
      by (intro exI [of _ k]) (simp add: getPosition_def)
  qed
  have c: "getPosition s i = - 1" if "\<not> isRunning s i" "\<not> isQueued s i"
  proof -
    have "findIndex (\<lambda>u. tid u = i) (queue s) = - 1"
      using that(2) by (simp add: findIndex_none isQueued_ids)
    with that(1) show ?thesis by (simp add: getPosition_def)
  qed
  have d: "sorted_wrt (\<lambda>a b. seqno a < seqno b) (queue s)" if "s = run evs (newTestQueue N)"
  proof -
    have "arrival_inv s" unfolding that by (rule arrival_inv_run) (rule arrival_inv_new)
    from arrival_inv_sorted [OF this] show ?thesis by (simp add: sorted_wrt_append)
  qed
  have e: "getPosition (settle k out now s) (tid t) = - 1 \<longleftrightarrow> \<not> isQueued s (tid t)"
    if "find (\<lambda>u. seqno u = k) (awaiting s) = Some t"
    using that by (rule getPosition_settled)
  have f: "getPosition (settle k out now s) (tid t) = - 1"
    if r: "s = run evs (newTestQueue N)" and fr: "fresh_ids (newTestQueue N) evs"
      and t: "find (\<lambda>u. seqno u = k) (awaiting s) = Some t"
  proof -
    have inv: "inflight_inv s"
      unfolding r using inflight_new arrival_inv_new fr by (rule inflight_run)
    from t have "t \<in> set (awaiting s)" by (auto simp: find_Some_iff in_set_conv_nth)
    with inv have "\<not> isQueued s (tid t)" by (rule awaiting_not_queued)
    with getPosition_settled [OF t] show ?thesis by simp
  qed
  from a b c d e f show ?thesis by blast
qed

text \<open>
  With a repeated id the settled task's id is still reported.  At ceiling 1 the
  submissions are \<open>a\<close>, \<open>b\<close>, \<open>a\<close>; when the first \<open>a\<close> has settled, \<open>b\<close> is started and
  \<open>getPosition\<close> gives 1 for \<open>a\<close>, the place of the second task of that id in the waiting
  line.
\<close>

theorem settled_id_still_waiting:
  "promises (settle 0 (Returned JNull) 3
      (run [Enqueue ''a'' 0, Enqueue ''b'' 1, Enqueue ''a'' 2] (newTestQueue 1))) 0
     = Some (Resolved JNull)
   \<and> map seqno (awaiting (settle 0 (Returned JNull) 3
      (run [Enqueue ''a'' 0, Enqueue ''b'' 1, Enqueue ''a'' 2] (newTestQueue 1)))) = [1]
   \<and> getPosition (settle 0 (Returned JNull) 3
      (run [Enqueue ''a'' 0, Enqueue ''b'' 1, Enqueue ''a'' 2] (newTestQueue 1))) ''a'' = 1
   \<and> getPosition (settle 0 (Returned JNull) 3
      (run [Enqueue ''a'' 0, Enqueue ''b'' 1, Enqueue ''a'' 2] (newTestQueue 1))) ''a'' \<noteq> - 1"
  by (simp add: run_def enqueue_def processQueue_def settle_def awaiting_def newTestQueue_def
      getPosition_def isRunning_def)

theorem getPosition_cases_witness:
  "getPosition (run [Enqueue ''a'' 0, Enqueue ''b'' 1, Enqueue ''c'' 2] (newTestQueue 1)) ''a'' = 0
   \<and> getPosition (run [Enqueue ''a'' 0, Enqueue ''b'' 1, Enqueue ''c'' 2] (newTestQueue 1)) ''c'' = 2
   \<and> getPosition (run [Enqueue ''a'' 0, Enqueue ''b'' 1, Enqueue ''c'' 2] (newTestQueue 1)) ''d'' = - 1
   \<and> getPosition (settle 0 (Returned JNull) 3
        (run [Enqueue ''a'' 0, Enqueue ''b'' 1, Enqueue ''c'' 2] (newTestQueue 1))) ''a'' = - 1"
proof -
  let ?evs = "[Enqueue ''a'' 0, Enqueue ''b'' 1, Enqueue ''c'' 2]"
  let ?s = "run ?evs (newTestQueue 1)"
  have s: "?s = \<lparr>queue = [\<lparr>tid = ''b'', seqno = 1, queuedAt = 1\<rparr>,
                          \<lparr>tid = ''c'', seqno = 2, queuedAt = 2\<rparr>],
                 running = [(''a'', 0)], maxConcurrent = 1,
                 started = [\<lparr>tid = ''a'', seqno = 0, queuedAt = 0\<rparr>],
                 promises = (\<lambda>k. None), nextSeq = 3\<rparr>"
    by (simp add: run_def enqueue_def processQueue_def newTestQueue_def)
  have ra: "isRunning ?s ''a''" and rc: "\<not> isRunning ?s ''c''" and rd: "\<not> isRunning ?s ''d''"
    and qc: "isQueued ?s ''c''" and qd: "\<not> isQueued ?s ''d''" and qa: "\<not> isQueued ?s ''a''"
    unfolding s by (simp_all add: isRunning_def isQueued_def)
  have f: "find (\<lambda>u. seqno u = 0) (awaiting ?s) = Some \<lparr>tid = ''a'', seqno = 0, queuedAt = 0\<rparr>"
    unfolding s by (simp add: awaiting_def)
  have fr: "fresh_ids (newTestQueue 1) ?evs"
    by (simp add: enqueue_def processQueue_def awaiting_def newTestQueue_def)
  have c2: "getPosition ?s ''c'' = 2"
    unfolding s by (simp add: getPosition_def isRunning_def)
  from getPosition_cases [of ?s "''a''"] ra have "getPosition ?s ''a'' = 0" by blast
  moreover from getPosition_cases [of ?s "''d''"] rd qd have "getPosition ?s ''d'' = - 1" by blast
  moreover from getPosition_cases [of ?s _ ?evs 1 0 "\<lparr>tid = ''a'', seqno = 0, queuedAt = 0\<rparr>"
      "Returned JNull" 3] f fr
  have "getPosition (settle 0 (Returned JNull) 3 ?s) ''a'' = - 1" by simp
  ultimately show ?thesis using c2 by blast
qed


subsection \<open>Failures\<close>

lemma promises_settle:
  assumes "find (\<lambda>t. seqno t = k) (awaiting s) = Some t"
  shows "promises (settle k out now s) = (promises s)(k := Some (settlement_of out))"
  using assms by (simp add: settle_def promises_processQueue)

text \<open>
  Claim C4, as the code has it.  When the work of a started task fails with the value \<open>e\<close>,
  the promise returned by \<open>enqueue\<close> is rejected with \<open>e\<close> itself if \<open>e\<close> is an \<open>Error\<close>
  instance, and with a new \<open>Error\<close> whose message is \<open>String(e)\<close> if \<open>e\<close> is not an \<open>Error\<close>
  instance and the conversion returns.  When the test \<open>instanceof\<close> or the conversion
  throws, \<open>reject\<close> is not called and the promise is left pending.
\<close>

theorem failure_passed_to_reject:
  assumes "find (\<lambda>t. seqno t = k) (awaiting s) = Some t"
  shows "promises (settle k (Threw e) now s) k =
         Some (case instanceof_Error e of
                 None \<Rightarrow> NeverSettled
               | Some True \<Rightarrow> Rejected e
               | Some False \<Rightarrow>
                   (case String_of e of
                      None \<Rightarrow> NeverSettled
                    | Some m \<Rightarrow> Rejected (JError ''Error'' m)))"
  using promises_settle [OF assms, of "Threw e" now]
  by (simp add: rejection_def new_Error_def split: option.splits bool.splits)

text \<open>
  A failure value that is not an \<open>Error\<close> does not reach the caller verbatim: the thrown
  string \<open>boom\<close> arrives as an \<open>Error\<close> object with that message.  A thrown object that has
  no conversion to a string does not arrive at all.
\<close>

theorem non_Error_failure_is_wrapped:
  "promises (settle 0 (Threw (JStr ''boom'')) 1 (enqueue ''a'' 0 (newTestQueue 1))) 0
     = Some (Rejected (JError ''Error'' ''boom''))
   \<and> promises (settle 0 (Threw (JStr ''boom'')) 1 (enqueue ''a'' 0 (newTestQueue 1))) 0
     \<noteq> Some (Rejected (JStr ''boom''))
   \<and> promises (settle 0 (Threw (JObject None)) 1 (enqueue ''a'' 0 (newTestQueue 1))) 0
     = Some NeverSettled"
  by (simp add: enqueue_def processQueue_def settle_def awaiting_def newTestQueue_def
      rejection_def new_Error_def)

theorem failure_passed_to_reject_witness:
  "promises (settle 0 (Threw (JError ''TypeError'' ''bad'')) 1 (enqueue ''a'' 0 (newTestQueue 1))) 0
     = Some (Rejected (JError ''TypeError'' ''bad''))
   \<and> promises (settle 0 (Threw JUndefined) 1 (enqueue ''a'' 0 (newTestQueue 1))) 0
     = Some (Rejected (JError ''Error'' ''undefined''))
   \<and> promises (settle 0 (Threw (JObject (Some ''[object Object]''))) 1
        (enqueue ''a'' 0 (newTestQueue 1))) 0
     = Some (Rejected (JError ''Error'' ''[object Object]''))
   \<and> promises (settle 0 (Threw (JObject None)) 1 (enqueue ''a'' 0 (newTestQueue 1))) 0
     = Some NeverSettled
   \<and> promises (settle 0 (Threw JRevoked) 1 (enqueue ''a'' 0 (newTestQueue 1))) 0
     = Some NeverSettled"
proof -
  have f: "find (\<lambda>t. seqno t = 0) (awaiting (enqueue ''a'' 0 (newTestQueue 1)))
      = Some \<lparr>tid = ''a'', seqno = 0, queuedAt = 0\<rparr>"
    by (simp add: enqueue_def processQueue_def awaiting_def newTestQueue_def)
  show ?thesis
    using failure_passed_to_reject [OF f, of "JError ''TypeError'' ''bad''" 1]
      failure_passed_to_reject [OF f, of JUndefined 1]
      failure_passed_to_reject [OF f, of "JObject (Some ''[object Object]'')" 1]
      failure_passed_to_reject [OF f, of "JObject None" 1]
      failure_passed_to_reject [OF f, of JRevoked 1]
    by simp
qed

subsection \<open>A failing task frees its slot\<close>

lemma settle_failure_step:
  assumes t: "find (\<lambda>u. seqno u = k) (awaiting s) = Some t"
  shows "settle k (Threw e) now s =
     (if maxConcurrent s \<le> int (length (AList.delete (tid t) (running s))) \<or> queue s = []
      then s\<lparr>promises := (promises s)(k := Some (settlement_of (Threw e))),
             running := AList.delete (tid t) (running s)\<rparr>
      else s\<lparr>promises := (promises s)(k := Some (settlement_of (Threw e))),
             running := AList.update (tid (hd (queue s))) now (AList.delete (tid t) (running s)),
             queue := tl (queue s),
             started := started s @ [hd (queue s)]\<rparr>)"
  using t by (cases "queue s") (simp_all add: settle_def processQueue_def)

lemma submitted_snoc:
  "submitted k (subs @ [p]) =
   submitted k subs @ [\<lparr>tid = fst p, seqno = k + length subs, queuedAt = snd p\<rparr>]"
  by (simp add: submitted_def enumerate_append_eq)

lemma length_submitted: "length (submitted k subs) = length subs"
  by (simp add: submitted_def)

lemma nth_submitted:
  "j < length subs \<Longrightarrow>
   submitted k subs ! j = \<lparr>tid = fst (subs ! j), seqno = k + j, queuedAt = snd (subs ! j)\<rparr>"
  by (simp add: submitted_def nth_enumerate_eq)

lemma burst_inv_enqueue:
  assumes "burst_inv s subs"
  shows "burst_inv (enqueue i now s) (subs @ [(i, now)])"
proof -
  let ?t = "\<lparr>tid = i, seqno = nextSeq s, queuedAt = now\<rparr>"
  let ?s1 = "s\<lparr>queue := queue s @ [?t], nextSeq := Suc (nextSeq s)\<rparr>"
  have sub: "submitted 0 (subs @ [(i, now)]) = started s @ queue s @ [?t]"
    using assms by (simp add: submitted_snoc burst_inv_def)
  show ?thesis
  proof (cases "maxConcurrent s \<le> int (length (running s))")
    case True
    then have "enqueue i now s = ?s1" by (simp add: enqueue_def processQueue_def)
    with assms True sub show ?thesis by (simp add: burst_inv_def qinv_def)
  next
    case False
    with assms have q: "queue s = []" by (auto simp: burst_inv_def)
    have e: "enqueue i now s =
        s\<lparr>queue := [], nextSeq := Suc (nextSeq s),
          running := AList.update i now (running s), started := started s @ [?t]\<rparr>"
      using False q by (simp add: enqueue_def processQueue_def)
    have len: "length (AList.update i now (running s)) \<le> Suc (length (started s))"
      using length_update_le [of i now "running s"] assms by (simp add: burst_inv_def)
    have "qinv (enqueue i now s)" using assms by (simp add: qinv_enqueue burst_inv_def)
    then have qi: "qinv (s\<lparr>queue := [], nextSeq := Suc (nextSeq s),
          running := AList.update i now (running s), started := started s @ [?t]\<rparr>)"
      by (simp only: e)
    show ?thesis
      unfolding e using assms sub q len qi
      by (auto simp: burst_inv_def AList.dom_update)
  qed
qed

lemma burst_inv_run:
  "burst_inv (run (map (\<lambda>p. Enqueue (fst p) (snd p)) subs) (newTestQueue (int n))) subs"
proof (induction subs rule: rev_induct)
  case Nil
  show ?case
    by (simp add: run_Nil burst_inv_def newTestQueue_def submitted_def qinv_def)
next
  case (snoc p subs)
  from burst_inv_enqueue [OF snoc, of "fst p" "snd p"] show ?case
    by (simp add: run_append run_Cons run_Nil)
qed

lemma find_first_submitted:
  assumes "xs = take m (submitted 0 subs)" "0 < m" "subs \<noteq> []"
  shows "find (\<lambda>u. seqno u = 0) xs = Some (hd (submitted 0 subs))"
proof -
  obtain p rest where subs: "subs = p # rest" using assms(3) by (cases subs) auto
  obtain m' where m: "m = Suc m'" using assms(2) by (cases m) auto
  show ?thesis
    unfolding assms(1) subs m by (simp add: submitted_def)
qed

lemma burst_then_failure:
  assumes n: "1 \<le> n" and len: "length subs = Suc n"
    and s: "s = run (map (\<lambda>p. Enqueue (fst p) (snd p)) subs) (newTestQueue (int n))"
  shows "\<lparr>tid = fst (last subs), seqno = n, queuedAt = snd (last subs)\<rparr>
           \<in> set (awaiting (settle 0 (Threw e) now s))"
proof -
  let ?T = "submitted 0 subs"
  let ?l = "\<lparr>tid = fst (last subs), seqno = n, queuedAt = snd (last subs)\<rparr>"
  have inv: "burst_inv s subs" unfolding s by (rule burst_inv_run)
  have mc: "maxConcurrent s = int n"
    unfolding s by (simp add: maxConcurrent_run newTestQueue_def)
  have ne: "subs \<noteq> []" using len by auto
  have lenT: "length ?T = Suc n" using len by (simp add: length_submitted)
  have TT: "started s @ queue s = ?T" using inv by (simp add: burst_inv_def)
  have lastT: "last ?T = ?l"
  proof -
    have "?T \<noteq> []" using lenT by auto
    then have "last ?T = ?T ! n" using lenT by (simp add: last_conv_nth)
    moreover have "last subs = subs ! n" using ne len by (simp add: last_conv_nth)
    ultimately show ?thesis using nth_submitted [of n subs 0] len by simp
  qed
  have aw: "awaiting s = started s" using inv by (simp add: burst_inv_def awaiting_def)
  have st: "started s = take (length (started s)) ?T"
    using TT by (metis append_eq_conv_conj)
  show ?thesis
  proof (cases "queue s = []")
    case True
    then have all: "started s = ?T" using TT by simp
    have f: "find (\<lambda>u. seqno u = 0) (awaiting s) = Some (hd ?T)"
      unfolding aw using find_first_submitted [of "started s" "Suc n" subs] all lenT ne
      by simp
    have "settle 0 (Threw e) now s =
        s\<lparr>promises := (promises s)(0 := Some (settlement_of (Threw e))),
          running := AList.delete (tid (hd ?T)) (running s)\<rparr>"
      unfolding settle_failure_step [OF f] using True by simp
    then have "awaiting (settle 0 (Threw e) now s) = filter (\<lambda>u. seqno u \<noteq> 0) ?T"
      using inv all by (simp add: awaiting_def burst_inv_def)
    moreover have "?l \<in> set ?T" using lastT lenT by (metis last_in_set length_0_conv nat.simps(3))
    ultimately show ?thesis using n by simp
  next
    case False
    with inv mc have full: "int n \<le> int (length (running s))" by (simp add: burst_inv_def)
    from inv mc have "int (length (running s)) \<le> int n" by (simp add: burst_inv_def qinv_def)
    with full have lr: "length (running s) = n" by simp
    have "length (started s) + length (queue s) = Suc n"
      using TT lenT by (metis length_append)
    moreover have "n \<le> length (started s)" using inv lr by (simp add: burst_inv_def)
    moreover have "0 < length (queue s)" using False by (cases "queue s") simp_all
    ultimately have ls: "length (started s) = n" and lq: "length (queue s) = 1" by linarith+
    have sT: "started s = take n ?T" using st ls by simp
    have qT: "queue s = [?l]"
    proof -
      have "queue s = drop n ?T" using TT ls by (metis append_eq_conv_conj)
      moreover have "drop n ?T = [last ?T]"
        using lenT by (metis Suc_inject append_butlast_last_id append_eq_conv_conj
            length_0_conv length_butlast diff_Suc_1 nat.simps(3))
      ultimately show ?thesis using lastT by simp
    qed
    have f: "find (\<lambda>u. seqno u = 0) (awaiting s) = Some (hd ?T)"
      unfolding aw using find_first_submitted [of "started s" n subs] sT n ne
      by simp
    have "hd ?T \<in> set (started s)"
      using sT n lenT by (cases ?T; cases n) auto
    then have "tid (hd ?T) \<in> fst ` set (running s)"
      using inv by (simp add: burst_inv_def)
    moreover have "distinct (map fst (running s))" using inv by (simp add: burst_inv_def qinv_def)
    ultimately have "Suc (length (AList.delete (tid (hd ?T)) (running s))) = n"
      using length_delete_present lr by metis
    then have free: "\<not> int n \<le> int (length (AList.delete (tid (hd ?T)) (running s)))"
      by simp
    have "started (settle 0 (Threw e) now s) = started s @ [?l]
        \<and> promises (settle 0 (Threw e) now s) = (promises s)(0 := Some (settlement_of (Threw e)))"
      unfolding settle_failure_step [OF f] using free mc False qT by simp
    then show ?thesis using n inv by (simp add: awaiting_def burst_inv_def)
  qed
qed

text \<open>
  Claim C5.  When the work of a started task fails, its promise is rejected (or left
  pending, when the \<open>catch\<close> block throws on the failure value), its id is deleted from the
  running set, and, if the running set is then below the ceiling and the waiting line is
  not empty, the head of the waiting line is started.  With ceiling
  \<open>n \<ge> 1\<close> and \<open>n + 1\<close> submissions of which the first fails, the last submission is among
  the started, unsettled tasks afterwards.
\<close>

theorem failing_task_frees_slot:
  "(find (\<lambda>u. seqno u = k) (awaiting s) = Some t \<longrightarrow>
      settle k (Threw e) now s =
       (if maxConcurrent s \<le> int (length (AList.delete (tid t) (running s))) \<or> queue s = []
        then s\<lparr>promises := (promises s)(k := Some (settlement_of (Threw e))),
               running := AList.delete (tid t) (running s)\<rparr>
        else s\<lparr>promises := (promises s)(k := Some (settlement_of (Threw e))),
               running := AList.update (tid (hd (queue s))) now (AList.delete (tid t) (running s)),
               queue := tl (queue s),
               started := started s @ [hd (queue s)]\<rparr>))
 \<and> (1 \<le> n \<and> length subs = Suc n \<longrightarrow>
      \<lparr>tid = fst (last subs), seqno = n, queuedAt = snd (last subs)\<rparr>
        \<in> set (awaiting (settle 0 (Threw e) now
             (run (map (\<lambda>p. Enqueue (fst p) (snd p)) subs) (newTestQueue (int n))))))"
  using settle_failure_step [of k s t e now] burst_then_failure [of n subs _ e now]
  by blast

theorem failing_task_frees_slot_witness:
  "queue (run [Enqueue ''a'' 0, Enqueue ''b'' 1] (newTestQueue 1))
     = [\<lparr>tid = ''b'', seqno = 1, queuedAt = 1\<rparr>]
   \<and> \<lparr>tid = ''b'', seqno = 1, queuedAt = 1\<rparr>
       \<in> set (awaiting (settle 0 (Threw (JStr ''x'')) 2
            (run [Enqueue ''a'' 0, Enqueue ''b'' 1] (newTestQueue 1))))
   \<and> running (settle 0 (Threw (JStr ''x'')) 2
            (run [Enqueue ''a'' 0, Enqueue ''b'' 1] (newTestQueue 1))) = [(''b'', 2)]"
proof -
  let ?s = "run [Enqueue ''a'' 0, Enqueue ''b'' 1] (newTestQueue 1)"
  have s: "?s = \<lparr>queue = [\<lparr>tid = ''b'', seqno = 1, queuedAt = 1\<rparr>],
                 running = [(''a'', 0)], maxConcurrent = 1,
                 started = [\<lparr>tid = ''a'', seqno = 0, queuedAt = 0\<rparr>],
                 promises = (\<lambda>k. None), nextSeq = 2\<rparr>"
    by (simp add: run_def enqueue_def processQueue_def newTestQueue_def)
  have f: "find (\<lambda>u. seqno u = 0) (awaiting ?s) = Some \<lparr>tid = ''a'', seqno = 0, queuedAt = 0\<rparr>"
    unfolding s by (simp add: awaiting_def)
  have r: "?s = run (map (\<lambda>p. Enqueue (fst p) (snd p)) [(''a'', 0), (''b'', 1)]) (newTestQueue (int 1))"
    by simp
  note c5 = failing_task_frees_slot [of 0 ?s "\<lparr>tid = ''a'', seqno = 0, queuedAt = 0\<rparr>"
      "JStr ''x''" 2 1 "[(''a'', 0), (''b'', 1)]"]
  from c5 f have "settle 0 (Threw (JStr ''x'')) 2 ?s =
       (if maxConcurrent ?s \<le> int (length (AList.delete ''a'' (running ?s))) \<or> queue ?s = []
        then ?s\<lparr>promises := (promises ?s)(0 := Some (settlement_of (Threw (JStr ''x'')))),
               running := AList.delete ''a'' (running ?s)\<rparr>
        else ?s\<lparr>promises := (promises ?s)(0 := Some (settlement_of (Threw (JStr ''x'')))),
               running := AList.update (tid (hd (queue ?s))) 2 (AList.delete ''a'' (running ?s)),
               queue := tl (queue ?s),
               started := started ?s @ [hd (queue ?s)]\<rparr>)"
    by simp
  then have "running (settle 0 (Threw (JStr ''x'')) 2 ?s) = [(''b'', 2)]"
    unfolding s by simp
  moreover from c5 have "\<lparr>tid = ''b'', seqno = 1, queuedAt = 1\<rparr>
       \<in> set (awaiting (settle 0 (Threw (JStr ''x'')) 2 ?s))"
    unfolding r by simp
  moreover have "queue ?s = [\<lparr>tid = ''b'', seqno = 1, queuedAt = 1\<rparr>]"
    unfolding s by simp
  ultimately show ?thesis by blast
qed
section \<open>Properties of the route\<close>

lemma mark_running_self [simp]: "mark_running q q m = m"
  by (simp add: mark_running_def)

lemma foldl_mark:
  "foldl (\<lambda>m t. m(tid t := Some Running)) m ts i
      = (if i \<in> tid ` set ts then Some Running else m i)"
  by (induction ts arbitrary: m) auto

lemma mark_running_status:
  "mark_running q q' m i =
     (if i \<in> tid ` set (drop (length (started q)) (started q')) then Some Running else m i)"
  unfolding mark_running_def by (rule foldl_mark)

lemma post_linear_conflict:
  assumes "issueTests s i = Some st" "st \<noteq> Completed"
  shows "post_linear i now s = (Conflict409 st i, s)"
  using assms by (simp add: post_linear_def)

lemma post_linear_accept:
  assumes "issueTests s i = Some Completed \<or> issueTests s i = None"
  shows "fst (post_linear i now s) =
           Accepted202
             (if maxConcurrent (testQueue s) \<le> int (length (running (testQueue s)))
              then ''Tests queued'' else ''Tests started'')
             i (length (queue (testQueue s)) + 1) (length (running (testQueue s)))
             (maxConcurrent (testQueue s))"
    and "testQueue (snd (post_linear i now s)) = enqueue i now (testQueue s)"
    and "issueTests (snd (post_linear i now s)) i = Some Queued
       \<or> issueTests (snd (post_linear i now s)) i = Some Running"
  using assms by (auto simp: post_linear_def mark_running_status)

text \<open>
  Claim C9.  A request for an issue id whose record exists with a status other than
  \<open>completed\<close> is answered with the conflict response that carries that status, which is
  \<open>queued\<close> or \<open>running\<close>, and nothing changes: no work is submitted to the queue.  A
  request for an issue id whose record is \<open>completed\<close> or absent is accepted: the work is
  submitted to the queue under the issue id and the record becomes \<open>queued\<close> or, if the
  queue starts the work at once, \<open>running\<close>.
\<close>

theorem run_deduplicated:
  "(issueTests s i = Some st \<and> st \<noteq> Completed \<longrightarrow>
      post_linear i now s = (Conflict409 st i, s) \<and> (st = Queued \<or> st = Running))
 \<and> (issueTests s i = Some Completed \<or> issueTests s i = None \<longrightarrow>
      (\<exists>msg pos r m. fst (post_linear i now s) = Accepted202 msg i pos r m)
      \<and> testQueue (snd (post_linear i now s)) = enqueue i now (testQueue s)
      \<and> nextSeq (testQueue (snd (post_linear i now s))) = Suc (nextSeq (testQueue s))
      \<and> (issueTests (snd (post_linear i now s)) i = Some Queued
           \<or> issueTests (snd (post_linear i now s)) i = Some Running))"
proof -
  have 1: "post_linear i now s = (Conflict409 st i, s) \<and> (st = Queued \<or> st = Running)"
    if "issueTests s i = Some st" "st \<noteq> Completed"
    using post_linear_conflict [OF that] that(2) by (cases st) auto
  have n: "nextSeq (enqueue i now q) = Suc (nextSeq q)" for q
    by (simp add: enqueue_def nextSeq_processQueue)
  have 2: "(\<exists>msg pos r m. fst (post_linear i now s) = Accepted202 msg i pos r m)
      \<and> testQueue (snd (post_linear i now s)) = enqueue i now (testQueue s)
      \<and> nextSeq (testQueue (snd (post_linear i now s))) = Suc (nextSeq (testQueue s))
      \<and> (issueTests (snd (post_linear i now s)) i = Some Queued
           \<or> issueTests (snd (post_linear i now s)) i = Some Running)"
    if "issueTests s i = Some Completed \<or> issueTests s i = None"
    using post_linear_accept [OF that, of now] n by simp
  from 1 2 show ?thesis by blast
qed

theorem run_deduplicated_witness:
  "fst (post_linear ''T1'' 0 (newCoordinator 3)) = Accepted202 ''Tests started'' ''T1'' 1 0 3
   \<and> issueTests (snd (post_linear ''T1'' 0 (newCoordinator 3))) ''T1'' = Some Running
   \<and> post_linear ''T1'' 1 (snd (post_linear ''T1'' 0 (newCoordinator 3)))
       = (Conflict409 Running ''T1'', snd (post_linear ''T1'' 0 (newCoordinator 3)))
   \<and> issueTests (task_finally 0 (Returned JNull) 2 (snd (post_linear ''T1'' 0 (newCoordinator 3))))
       ''T1'' = Some Completed
   \<and> issueTests (cleanup_timer ''T1'' (task_finally 0 (Returned JNull) 2
       (snd (post_linear ''T1'' 0 (newCoordinator 3))))) ''T1'' = None
   \<and> testQueue (snd (post_linear ''T1'' 4 (cleanup_timer ''T1'' (task_finally 0 (Returned JNull) 2
       (snd (post_linear ''T1'' 0 (newCoordinator 3)))))))
     = enqueue ''T1'' 4 (testQueue (cleanup_timer ''T1'' (task_finally 0 (Returned JNull) 2
       (snd (post_linear ''T1'' 0 (newCoordinator 3))))))"
proof -
  define s1 where "s1 = snd (post_linear ''T1'' 0 (newCoordinator 3))"
  define s2 where "s2 = task_finally 0 (Returned JNull) 2 s1"
  define s3 where "s3 = cleanup_timer ''T1'' s2"
  have q1: "testQueue s1 = \<lparr>queue = [], running = [(''T1'', 0)], maxConcurrent = 3,
       started = [\<lparr>tid = ''T1'', seqno = 0, queuedAt = 0\<rparr>], promises = (\<lambda>k. None), nextSeq = 1\<rparr>"
    by (simp add: s1_def post_linear_def newCoordinator_def newTestQueue_def enqueue_def
        processQueue_def)
  have r0: "fst (post_linear ''T1'' 0 (newCoordinator 3)) = Accepted202 ''Tests started'' ''T1'' 1 0 3"
    by (simp add: post_linear_def newCoordinator_def newTestQueue_def)
  have i1: "issueTests s1 ''T1'' = Some Running"
    by (simp add: s1_def post_linear_def newCoordinator_def newTestQueue_def enqueue_def
        processQueue_def mark_running_def)
  have f: "find (\<lambda>t. seqno t = 0) (awaiting (testQueue s1)) = Some \<lparr>tid = ''T1'', seqno = 0, queuedAt = 0\<rparr>"
    by (simp add: q1 awaiting_def)
  have q2: "started (settle 0 (Returned JNull) 2 (testQueue s1)) = started (testQueue s1)"
    by (simp only: settle_def f option.case) (simp add: processQueue_def q1)
  have i2: "issueTests s2 ''T1'' = Some Completed"
    by (simp add: s2_def task_finally_def f mark_running_def q2)
  have t2: "timers s2 = timers s1 @ [''T1'']"
    by (simp add: s2_def task_finally_def f)
  have i3: "issueTests s3 ''T1'' = None"
    by (simp add: s3_def cleanup_timer_def t2)
  from run_deduplicated [of s1 "''T1''" Running 1] i1
  have c: "post_linear ''T1'' 1 s1 = (Conflict409 Running ''T1'', s1)" by simp
  from run_deduplicated [of s3 "''T1''" _ 4] i3
  have a: "testQueue (snd (post_linear ''T1'' 4 s3)) = enqueue ''T1'' 4 (testQueue s3)" by simp
  from r0 i1 c i2 i3 a show ?thesis
    unfolding s3_def s2_def s1_def by simp
qed

section \<open>Properties of the patterns\<close>

lemma after_Nil [simp]: "after p [] = p"
  by (simp add: after_def)

lemma after_Cons [simp]: "after p (c # w) = after (Some c) w"
  by (simp add: after_def)

lemma after_append [simp]: "after (after p u) v = after p (u @ v)"
  by (simp add: after_def)

lemma after_snoc [simp]: "after p (w @ [c]) = Some c"
  by (simp add: after_def)

lemma one_SomeD:
  "re_one C k (p, s) = Some r \<Longrightarrow> \<exists>c t. s = c # t \<and> C c \<and> k (Some c, t) = Some r"
  by (cases s) (auto split: if_splits)

lemma star_None:
  "re_star C k (p, s) = None \<Longrightarrow> s = w @ t \<Longrightarrow> \<forall>c \<in> set w. C c \<Longrightarrow> k (after p w, t) = None"
proof (induction w arbitrary: p s)
  case Nil
  then show ?case by (cases s) (auto split: if_splits option.splits)
next
  case (Cons a w)
  from Cons.prems have "re_star C k (Some a, w @ t) = None"
    by (auto split: if_splits option.splits)
  from Cons.IH [OF this refl] Cons.prems(3) show ?case by simp
qed

lemma star_SomeD:
  "re_star C k (p, s) = Some r \<Longrightarrow>
   \<exists>w t. s = w @ t \<and> (\<forall>c \<in> set w. C c) \<and> k (after p w, t) = Some r
     \<and> (\<forall>w' t'. s = w' @ t' \<longrightarrow> (\<forall>c \<in> set w'. C c) \<longrightarrow> length w < length w'
           \<longrightarrow> k (after p w', t') = None)"
proof (induction s arbitrary: p)
  case Nil
  then show ?case by (intro exI [of _ "[]"] exI [of _ "[]"]) simp
next
  case (Cons c cs)
  show ?case
  proof (cases "C c \<and> re_star C k (Some c, cs) \<noteq> None")
    case True
    with Cons.prems have inner: "re_star C k (Some c, cs) = Some r" by auto
    from Cons.IH [OF inner] obtain w t where wt: "cs = w @ t" "\<forall>c \<in> set w. C c"
      "k (after (Some c) w, t) = Some r"
      and greedy: "\<And>w' t'. cs = w' @ t' \<Longrightarrow> (\<forall>c \<in> set w'. C c) \<Longrightarrow> length w < length w'
           \<Longrightarrow> k (after (Some c) w', t') = None"
      by blast
    have "k (after p w', t') = None"
      if "c # cs = w' @ t'" "\<forall>c \<in> set w'. C c" "length (c # w) < length w'" for w' t'
    proof -
      from that(3) obtain a w'' where w': "w' = a # w''" by (cases w') auto
      with that have "cs = w'' @ t'" "\<forall>c \<in> set w''. C c" "length w < length w''" "a = c"
        by auto
      with greedy [of w'' t'] show ?thesis by (simp add: w')
    qed
    with wt True show ?thesis
      by (intro exI [of _ "c # w"] exI [of _ t]) auto
  next
    case False
    with Cons.prems have here: "k (p, c # cs) = Some r"
      by (auto split: if_splits option.splits)
    have "k (after p w', t') = None"
      if "c # cs = w' @ t'" "\<forall>c \<in> set w'. C c" "0 < length w'" for w' t'
    proof -
      from that(3) obtain a w'' where w': "w' = a # w''" by (cases w') auto
      with that have eq: "cs = w'' @ t'" "\<forall>c \<in> set w''. C c" "a = c" "C c" by auto
      with False have "re_star C k (Some c, cs) = None" by simp
      from star_None [OF this eq(1) eq(2)] show ?thesis by (simp add: w' eq(3))
    qed
    with here show ?thesis
      by (intro exI [of _ "[]"] exI [of _ "c # cs"]) auto
  qed
qed

lemma star_max:
  "\<forall>c \<in> set w. C c \<Longrightarrow> t = [] \<or> \<not> C (hd t) \<Longrightarrow> k (after p w, t) = Some r \<Longrightarrow>
   re_star C k (p, w @ t) = Some r"
proof (induction w arbitrary: p)
  case Nil
  then show ?case by (cases t) auto
next
  case (Cons a w)
  then show ?case by simp
qed


lemma upto_SomeD:
  "re_upto n C k (p, s) = Some r \<Longrightarrow>
   \<exists>w t. s = w @ t \<and> (\<forall>c \<in> set w. C c) \<and> length w \<le> n \<and> k (after p w, t) = Some r"
proof (induction n arbitrary: p s)
  case 0
  then show ?case by (intro exI [of _ "[]"] exI [of _ s]) simp
next
  case (Suc n)
  show ?case
  proof (cases s)
    case Nil
    with Suc.prems show ?thesis by (intro exI [of _ "[]"] exI [of _ "[]"]) simp
  next
    case (Cons c cs)
    show ?thesis
    proof (cases "C c \<and> re_upto n C k (Some c, cs) \<noteq> None")
      case True
      with Suc.prems Cons have "re_upto n C k (Some c, cs) = Some r" by auto
      from Suc.IH [OF this] obtain w t where "cs = w @ t" "\<forall>c \<in> set w. C c" "length w \<le> n"
        "k (after (Some c) w, t) = Some r" by blast
      with True Cons show ?thesis
        by (intro exI [of _ "c # w"] exI [of _ t]) auto
    next
      case False
      with Suc.prems Cons have "k (p, s) = Some r"
        by (auto split: if_splits option.splits)
      then show ?thesis by (intro exI [of _ "[]"] exI [of _ s]) simp
    qed
  qed
qed

lemma lit_i_SomeD:
  "re_lit_i a k (p, s) = Some r \<Longrightarrow>
   \<exists>w t. s = w @ t \<and> list_all2 is_char_i a w \<and> k (after p w, t) = Some r"
proof (induction a arbitrary: p s)
  case Nil
  then show ?case by (intro exI [of _ "[]"] exI [of _ s]) simp
next
  case (Cons x a)
  from Cons.prems have "re_one (is_char_i x) (re_lit_i a k) (p, s) = Some r" by simp
  from one_SomeD [OF this] obtain c t where ct: "s = c # t" "is_char_i x c"
    "re_lit_i a k (Some c, t) = Some r" by blast
  from Cons.IH [OF ct(3)] obtain w t' where "t = w @ t'" "list_all2 is_char_i a w"
    "k (after (Some c) w, t') = Some r" by blast
  with ct show ?case
    by (intro exI [of _ "c # w"] exI [of _ t']) auto
qed

lemma lazy_SomeD:
  "re_lazy C k (p, s) = Some r \<Longrightarrow>
   \<exists>w t. s = w @ t \<and> (\<forall>c \<in> set w. C c) \<and> k (after p w, t) = Some r
     \<and> (\<forall>w' t'. s = w' @ t' \<longrightarrow> length w' < length w \<longrightarrow> k (after p w', t') = None)"
proof (induction s arbitrary: p)
  case Nil
  then show ?case by (intro exI [of _ "[]"] exI [of _ "[]"]) simp
next
  case (Cons c cs)
  show ?case
  proof (cases "k (p, c # cs)")
    case (Some r')
    with Cons.prems have "r' = r" by simp
    with Some show ?thesis by (intro exI [of _ "[]"] exI [of _ "c # cs"]) simp
  next
    case None
    with Cons.prems have c: "C c" and inner: "re_lazy C k (Some c, cs) = Some r"
      by (auto split: if_splits)
    from Cons.IH [OF inner] obtain w t where wt: "cs = w @ t" "\<forall>c \<in> set w. C c"
      "k (after (Some c) w, t) = Some r"
      and least: "\<And>w' t'. cs = w' @ t' \<Longrightarrow> length w' < length w
           \<Longrightarrow> k (after (Some c) w', t') = None"
      by blast
    have "k (after p w', t') = None"
      if "c # cs = w' @ t'" "length w' < length (c # w)" for w' t'
    proof (cases w')
      case Nil
      with that None show ?thesis by simp
    next
      case (Cons a w'')
      with that have "cs = w'' @ t'" "length w'' < length w" "a = c" by auto
      with least [of w'' t'] Cons show ?thesis by simp
    qed
    with wt c show ?thesis
      by (intro exI [of _ "c # w"] exI [of _ t]) auto
  qed
qed

lemma match_first_SomeD:
  "match_first r (p, s) = Some x \<Longrightarrow>
   \<exists>w t. s = w @ t \<and> r (after p w, t) = Some x
     \<and> (\<forall>w' t'. s = w' @ t' \<longrightarrow> length w' < length w \<longrightarrow> r (after p w', t') = None)"
proof (induction s arbitrary: p)
  case Nil
  then show ?case by (intro exI [of _ "[]"] exI [of _ "[]"]) simp
next
  case (Cons c cs)
  show ?case
  proof (cases "r (p, c # cs)")
    case (Some x')
    with Cons.prems have "x' = x" by simp
    with Some show ?thesis by (intro exI [of _ "[]"] exI [of _ "c # cs"]) simp
  next
    case None
    with Cons.prems have inner: "match_first r (Some c, cs) = Some x" by simp
    from Cons.IH [OF inner] obtain w t where wt: "cs = w @ t" "r (after (Some c) w, t) = Some x"
      and least: "\<And>w' t'. cs = w' @ t' \<Longrightarrow> length w' < length w
           \<Longrightarrow> r (after (Some c) w', t') = None"
      by blast
    have "r (after p w', t') = None"
      if "c # cs = w' @ t'" "length w' < length (c # w)" for w' t'
    proof (cases w')
      case Nil
      with that None show ?thesis by simp
    next
      case (Cons a w'')
      with that have "cs = w'' @ t'" "length w'' < length w" "a = c" by auto
      with least [of w'' t'] Cons show ?thesis by simp
    qed
    with wt show ?thesis
      by (intro exI [of _ "c # w"] exI [of _ t]) auto
  qed
qed

subsection \<open>Patterns pass on a later position\<close>

lemma passesD:
  assumes "passes R" "R k (p, s) = Some r"
  shows "\<exists>w t. s = w @ t \<and> k (after p w, t) = Some r"
  using assms(1) [unfolded passes_def, rule_format, OF assms(2)] .

lemma passesI:
  assumes "\<And>k p s r. R k (p, s) = Some r \<Longrightarrow> \<exists>w t. s = w @ t \<and> k (after p w, t) = Some r"
  shows "passes R"
  unfolding passes_def by (intro allI impI) (rule assms)

lemma passes_one: "passes (re_one C)"
proof (rule passesI)
  fix k :: "pos \<Rightarrow> 'a option" and p s r
  assume "re_one C k (p, s) = Some r"
  from one_SomeD [OF this] obtain c t where "s = c # t" "k (Some c, t) = Some r" by blast
  then show "\<exists>w t. s = w @ t \<and> k (after p w, t) = Some r"
    by (intro exI [of _ "[c]"] exI [of _ t]) simp
qed

lemma passes_star: "passes (re_star C)"
proof (rule passesI)
  fix k :: "pos \<Rightarrow> 'a option" and p s r
  assume "re_star C k (p, s) = Some r"
  from star_SomeD [OF this] obtain w t where "s = w @ t" "k (after p w, t) = Some r" by blast
  then show "\<exists>w t. s = w @ t \<and> k (after p w, t) = Some r" by blast
qed

lemma passes_upto: "passes (re_upto n C)"
proof (rule passesI)
  fix k :: "pos \<Rightarrow> 'a option" and p s r
  assume "re_upto n C k (p, s) = Some r"
  from upto_SomeD [OF this] obtain w t where "s = w @ t" "k (after p w, t) = Some r" by blast
  then show "\<exists>w t. s = w @ t \<and> k (after p w, t) = Some r" by blast
qed

lemma passes_lit_i: "passes (re_lit_i a)"
proof (rule passesI)
  fix k :: "pos \<Rightarrow> 'a option" and p s r
  assume "re_lit_i a k (p, s) = Some r"
  from lit_i_SomeD [OF this] obtain w t where "s = w @ t" "k (after p w, t) = Some r" by blast
  then show "\<exists>w t. s = w @ t \<and> k (after p w, t) = Some r" by blast
qed

lemma passes_lazy: "passes (re_lazy C)"
proof (rule passesI)
  fix k :: "pos \<Rightarrow> 'a option" and p s r
  assume "re_lazy C k (p, s) = Some r"
  from lazy_SomeD [OF this] obtain w t where "s = w @ t" "k (after p w, t) = Some r" by blast
  then show "\<exists>w t. s = w @ t \<and> k (after p w, t) = Some r" by blast
qed

lemma passes_comp:
  assumes "passes A" "passes B"
  shows "passes (\<lambda>k. A (B k))"
  unfolding passes_def
proof (intro allI impI)
  fix k :: "pos \<Rightarrow> 'a option" and p s r
  assume "A (B k) (p, s) = Some r"
  from passesD [OF assms(1) this] obtain w t where wt: "s = w @ t" "B k (after p w, t) = Some r"
    by blast
  from passesD [OF assms(2) wt(2)] obtain w' t' where "t = w' @ t'"
    "k (after (after p w) w', t') = Some r" by blast
  with wt show "\<exists>w t. s = w @ t \<and> k (after p w, t) = Some r"
    by (intro exI [of _ "w @ w'"] exI [of _ t']) simp
qed

lemma passes_plus: "passes (re_plus C)"
  unfolding re_plus_def by (rule passes_comp [OF passes_one passes_star])

lemma passes_here:
  assumes "\<And>k x r. R k x = Some r \<Longrightarrow> k x = Some r"
  shows "passes R"
proof (rule passesI)
  fix k :: "pos \<Rightarrow> 'a option" and p s r
  assume "R k (p, s) = Some r"
  from assms [OF this] show "\<exists>w t. s = w @ t \<and> k (after p w, t) = Some r"
    by (intro exI [of _ "[]"] exI [of _ s]) simp
qed

lemma passes_bol: "passes re_bol"
  by (rule passes_here) (simp add: re_bol_def split: option.splits if_splits)

lemma passes_bos: "passes re_bos"
  by (rule passes_here) (simp add: re_bos_def split: option.splits)

lemma passes_alt:
  assumes "passes A" "passes B"
  shows "passes (re_alt A B)"
proof (rule passesI)
  fix k :: "pos \<Rightarrow> 'a option" and p s r
  assume "re_alt A B k (p, s) = Some r"
  then consider "A k (p, s) = Some r" | "B k (p, s) = Some r"
    by (auto simp: re_alt_def split: option.splits)
  then show "\<exists>w t. s = w @ t \<and> k (after p w, t) = Some r"
  proof cases
    case 1
    from passesD [OF assms(1) this] show ?thesis .
  next
    case 2
    from passesD [OF assms(2) this] show ?thesis .
  qed
qed

lemma passes_o: "passes A \<Longrightarrow> passes B \<Longrightarrow> passes (A \<circ> B)"
  unfolding o_def by (rule passes_comp)

subsection \<open>The item patterns\<close>

lemma not_dot: "\<not> is_dot c \<longleftrightarrow> is_line_terminator c"
  by (simp add: is_dot_def)


lemma item_text_eq:
  "item_text (q, t) =
     (if takeWhile is_dot t = [] then None
      else Some (takeWhile is_dot t, (Some (last (takeWhile is_dot t)), dropWhile is_dot t)))"
proof (cases t)
  case Nil
  then show ?thesis by (simp add: item_text_def re_group_def re_plus_def)
next
  case (Cons c cs)
  show ?thesis
  proof (cases "is_dot c")
    case False
    with Cons show ?thesis by (simp add: item_text_def re_group_def re_plus_def)
  next
    case True
    define w where "w = takeWhile is_dot cs"
    define d where "d = dropWhile is_dot cs"
    define K where "K = (\<lambda>y. re_eol (\<lambda>ya. Some (take (length (c # cs) - length (snd y)) (c # cs), ya)) y)"
    have cs: "cs = w @ d" by (simp add: w_def d_def)
    have allw: "\<forall>x \<in> set w. is_dot x" unfolding w_def by (auto dest: set_takeWhileD)
    have d: "d = [] \<or> \<not> is_dot (hd d)" unfolding d_def by (metis hd_dropWhile)
    have cap: "take (length (c # cs) - length d) (c # cs) = c # w"
      unfolding cs by simp
    have "K (after (Some c) w, d)
        = Some (take (length (c # cs) - length d) (c # cs), (after (Some c) w, d))"
      unfolding K_def using d by (cases d) (simp_all add: re_eol_def not_dot)
    then have "K (after (Some c) w, d) = Some (c # w, (after (Some c) w, d))"
      unfolding cap .
    from star_max [of w is_dot d K "Some c", OF allw d this]
    have "re_star is_dot K (Some c, cs) = Some (c # w, (after (Some c) w, d))"
      unfolding cs .
    then have "item_text (q, c # cs) = Some (c # w, (after (Some c) w, d))"
      using True by (simp add: item_text_def re_group_def re_plus_def K_def)
    moreover have "after (Some c) w = Some (last (c # w))"
      by (simp add: after_def)
    moreover have "takeWhile is_dot (c # cs) = c # w" "dropWhile is_dot (c # cs) = d"
      using True by (simp_all add: w_def d_def)
    ultimately show ?thesis using Cons by simp
  qed
qed

lemma item_textD:
  assumes "item_text (q, t) = Some (cap, y)"
  shows "cap = takeWhile is_dot t" "cap \<noteq> []" "y = (Some (last cap), dropWhile is_dot t)"
  using assms by (auto simp: item_text_eq split: if_splits)

lemma item_patternI:
  assumes "passes PRE"
  shows "item_pattern (PRE item_text)"
  unfolding item_pattern_def
proof (intro allI impI)
  fix p s cap y
  assume "PRE item_text (p, s) = Some (cap, y)"
  from passesD [OF assms this] obtain w t where wt: "s = w @ t"
    "item_text (after p w, t) = Some (cap, y)" by blast
  from item_textD [OF wt(2)] have "t = cap @ snd y" "cap \<noteq> []" by simp_all
  with wt show "(\<exists>w. s = w @ cap @ snd y) \<and> cap \<noteq> []" by blast
qed

lemma checkboxRegex_form:
  "checkboxRegex =
     (re_bol \<circ> re_star is_space \<circ> re_one is_bullet \<circ> re_star is_space \<circ> re_one (is_char CHR ''['')
       \<circ> re_one is_box \<circ> re_one (is_char CHR '']'') \<circ> re_star is_space) item_text"
  by (simp add: checkboxRegex_def)

lemma numberedRegex_form:
  "numberedRegex =
     (re_bol \<circ> re_star is_space \<circ> re_plus is_digit \<circ> re_one is_delimiter \<circ> re_star is_space) item_text"
  by (simp add: numberedRegex_def)

lemma bulletRegex_form:
  "bulletRegex = (re_bol \<circ> re_star is_space \<circ> re_one is_bullet \<circ> re_plus is_space) item_text"
  by (simp add: bulletRegex_def)

lemmas passes_intros =
  passes_o passes_bol passes_bos passes_star passes_one passes_plus passes_upto passes_lit_i
  passes_lazy

lemma item_pattern_checkbox: "item_pattern checkboxRegex"
  unfolding checkboxRegex_form by (rule item_patternI) (intro passes_intros)

lemma item_pattern_numbered: "item_pattern numberedRegex"
  unfolding numberedRegex_form by (rule item_patternI) (intro passes_intros)

lemma item_pattern_bullet: "item_pattern bulletRegex"
  unfolding bulletRegex_form by (rule item_patternI) (intro passes_intros)


subsection \<open>Order of appearance\<close>

lemma appear_prefix: "appear_in_order cs t \<Longrightarrow> appear_in_order cs (u @ t)"
proof (cases cs)
  case Nil
  then show ?thesis by simp
next
  case (Cons c cs')
  assume "appear_in_order cs t"
  with Cons obtain pre post where "t = pre @ c @ post" "appear_in_order cs' post" by auto
  then have "u @ t = (u @ pre) @ c @ post \<and> appear_in_order cs' post" by simp
  then show ?thesis unfolding Cons appear_in_order.simps by blast
qed

lemma appear_suffix: "appear_in_order cs t \<Longrightarrow> appear_in_order cs (t @ u)"
proof (induction cs arbitrary: t)
  case Nil
  show ?case by simp
next
  case (Cons c cs)
  then obtain pre post where pp: "t = pre @ c @ post" "appear_in_order cs post" by auto
  from Cons.IH [OF pp(2)] have "appear_in_order cs (post @ u)" .
  moreover have "t @ u = pre @ c @ (post @ u)" using pp(1) by simp
  ultimately show ?case unfolding appear_in_order.simps by blast
qed

lemma appear_drop:
  "appear_in_order (xs @ m # ys) t \<Longrightarrow> appear_in_order (xs @ ys) t"
proof (induction xs arbitrary: t)
  case Nil
  then obtain pre post where pp: "t = pre @ m @ post" "appear_in_order ys post" by auto
  from appear_prefix [OF pp(2), of "pre @ m"] pp(1) show ?case by simp
next
  case (Cons x xs)
  then obtain pre post where pp: "t = pre @ x @ post" "appear_in_order (xs @ m # ys) post"
    by auto
  from Cons.IH [OF pp(2)] pp(1) show ?case
    unfolding append_Cons appear_in_order.simps by blast
qed

lemma appear_shrink:
  "appear_in_order (xs @ (a @ m @ b) # ys) t \<Longrightarrow> appear_in_order (xs @ m # ys) t"
proof (induction xs arbitrary: t)
  case Nil
  then obtain pre post where pp: "t = pre @ (a @ m @ b) @ post" "appear_in_order ys post" by auto
  from appear_prefix [OF pp(2), of b] have "appear_in_order ys (b @ post)" .
  moreover have "t = (pre @ a) @ m @ (b @ post)" using pp(1) by simp
  ultimately show ?case unfolding append_Nil appear_in_order.simps by blast
next
  case (Cons x xs)
  then obtain pre post where pp: "t = pre @ x @ post"
    "appear_in_order (xs @ (a @ m @ b) # ys) post" by auto
  from Cons.IH [OF pp(2)] pp(1) show ?case
    unfolding append_Cons appear_in_order.simps by blast
qed

lemma appear_exec_all:
  assumes "item_pattern r"
  shows "appear_in_order (exec_all r (p, s)) s"
proof (induction "length s" arbitrary: p s rule: less_induct)
  case less
  show ?case
  proof (cases "r (p, s)")
    case None
    show ?thesis
    proof (cases s)
      case Nil
      with None show ?thesis by simp
    next
      case (Cons c cs)
      then have "appear_in_order (exec_all r (Some c, cs)) cs"
        by (intro less) simp
      from appear_prefix [OF this, of "[c]"] None Cons show ?thesis by simp
    qed
  next
    case (Some m)
    obtain cap p' s' where m: "m = (cap, (p', s'))" by (cases m) auto
    from assms Some m obtain w where w: "s = w @ cap @ s'" "cap \<noteq> []"
      unfolding item_pattern_def by fastforce
    then have shorter: "length s' < length s" by (cases cap) auto
    then have "appear_in_order (exec_all r (p', s')) s'"
      by (intro less)
    with w(1) have "appear_in_order (cap # exec_all r (p', s')) s"
      unfolding appear_in_order.simps by blast
    with Some m shorter show ?thesis by simp
  qed
qed

subsection \<open>The loop body\<close>

lemma dropWhile_idem: "dropWhile P (dropWhile P xs) = dropWhile P xs"
  by (metis dropWhile_eq_self_iff hd_dropWhile)

lemma dropWhile_rev_dropWhile:
  assumes "xs = [] \<or> \<not> P (hd xs)"
  shows "dropWhile P (rev (dropWhile P (rev xs))) = rev (dropWhile P (rev xs))"
proof (cases "dropWhile P (rev xs) = []")
  case True
  then show ?thesis by (simp only: rev.simps dropWhile.simps)
next
  case False
  define e where "e = dropWhile P (rev xs)"
  obtain pre where "rev xs = pre @ e"
    unfolding e_def by (metis takeWhile_dropWhile_id)
  then have xs: "xs = rev e @ rev pre" by (metis rev_append rev_rev_ident)
  from False have "rev e \<noteq> []" by (simp add: e_def)
  then obtain z zs where z: "rev e = z # zs" by (cases "rev e") auto
  with xs assms have "\<not> P z" by auto
  with z have "dropWhile P (rev e) = rev e" by simp
  then show ?thesis by (simp add: e_def)
qed

lemma trim_idem: "trim (trim s) = trim s"
proof -
  define d where "d = dropWhile is_space s"
  have "d = [] \<or> \<not> is_space (hd d)" unfolding d_def by (metis hd_dropWhile)
  from dropWhile_rev_dropWhile [of d is_space, OF this]
  have "dropWhile is_space (trim s) = trim s" by (simp add: trim_def d_def)
  then show ?thesis by (simp add: trim_def [of "trim s"]) (simp add: trim_def dropWhile_idem)
qed

lemma trim_sub: "\<exists>a b. m = a @ trim m @ b"
proof -
  let ?d = "dropWhile is_space m"
  have 1: "m = takeWhile is_space m @ ?d" by simp
  have "rev ?d = takeWhile is_space (rev ?d) @ dropWhile is_space (rev ?d)" by simp
  then have "?d = rev (dropWhile is_space (rev ?d)) @ rev (takeWhile is_space (rev ?d))"
    by (metis rev_append rev_rev_ident)
  then have "?d = trim m @ rev (takeWhile is_space (rev ?d))" by (simp add: trim_def)
  with 1 show ?thesis by metis
qed

lemma collect_invariant:
  assumes "\<forall>c \<in> set acc. c \<noteq> [] \<and> trim c = c" "distinct acc"
  shows "(\<forall>c \<in> set (collect acc ms). c \<noteq> [] \<and> trim c = c) \<and> distinct (collect acc ms)"
  using assms
proof (induction ms arbitrary: acc)
  case Nil
  then show ?case by simp
next
  case (Cons m ms)
  show ?case
  proof (cases "trim m \<noteq> [] \<and> trim m \<notin> set acc")
    case True
    have "\<forall>c \<in> set (acc @ [trim m]). c \<noteq> [] \<and> trim c = c" "distinct (acc @ [trim m])"
      using Cons.prems True by (auto simp: trim_idem)
    from Cons.IH [OF this] True show ?thesis by (simp add: Let_def)
  next
    case False
    from Cons.IH [OF Cons.prems] False show ?thesis by (auto simp: Let_def)
  qed
qed

lemma collect_appear:
  "appear_in_order (acc @ ms) t \<Longrightarrow> appear_in_order (collect acc ms) t"
proof (induction ms arbitrary: acc)
  case Nil
  then show ?case by simp
next
  case (Cons m ms)
  show ?case
  proof (cases "trim m \<noteq> [] \<and> trim m \<notin> set acc")
    case True
    obtain a b where ab: "m = a @ trim m @ b" using trim_sub by blast
    from Cons.prems have "appear_in_order (acc @ (a @ trim m @ b) # ms) t" using ab by simp
    from appear_shrink [OF this] have "appear_in_order ((acc @ [trim m]) @ ms) t" by simp
    from Cons.IH [OF this] True show ?thesis by (simp add: Let_def)
  next
    case False
    from appear_drop [OF Cons.prems] have "appear_in_order (acc @ ms) t" .
    from Cons.IH [OF this] False show ?thesis by (auto simp: Let_def)
  qed
qed

lemma first_occurrences_snoc:
  "first_occurrences (xs @ [x]) = (if x \<in> set xs then first_occurrences xs else first_occurrences xs @ [x])"
  by (simp add: first_occurrences_def)

lemma set_first_occurrences: "set (first_occurrences xs) = set xs"
  by (simp add: first_occurrences_def)

lemma collect_first_occurrences:
  "collect (first_occurrences xs) ms = first_occurrences (xs @ candidates ms)"
proof (induction ms arbitrary: xs)
  case Nil
  show ?case by (simp add: candidates_def)
next
  case (Cons m ms)
  show ?case
  proof (cases "trim m = []")
    case True
    with Cons [of xs] show ?thesis by (simp add: candidates_def Let_def)
  next
    case False
    have c: "candidates (m # ms) = trim m # candidates ms"
      using False by (simp add: candidates_def)
    show ?thesis
    proof (cases "trim m \<in> set xs")
      case True
      then have "first_occurrences (xs @ [trim m]) = first_occurrences xs"
        by (simp add: first_occurrences_snoc)
      with Cons [of "xs @ [trim m]"] True False show ?thesis
        by (simp add: c Let_def set_first_occurrences)
    next
      case nin: False
      then have "first_occurrences (xs @ [trim m]) = first_occurrences xs @ [trim m]"
        by (simp add: first_occurrences_snoc)
      with Cons [of "xs @ [trim m]"] nin False show ?thesis
        by (simp add: c Let_def set_first_occurrences)
    qed
  qed
qed

subsection \<open>The section pattern\<close>

lemma acSectionRegex_form:
  "acSectionRegex =
     (re_alt re_bos (re_one (is_char CHR 0x0A)) \<circ> re_one (is_char CHR ''#'')
       \<circ> re_upto 2 (is_char CHR ''#'') \<circ> re_star is_space \<circ> re_lit_i ''acceptance''
       \<circ> re_star is_space \<circ> re_lit_i ''criteria'' \<circ> re_star is_space
       \<circ> re_one (is_char CHR 0x0A)) section_body"
  unfolding acSectionRegex_def comp_def ..

lemma section_bodyD:
  assumes "section_body (q, t) = Some body"
  shows "\<exists>post. t = body @ post
     \<and> section_end (\<lambda>y. Some ()) (after q body, post) \<noteq> None
     \<and> (\<forall>b1 b2. t = b1 @ b2 \<longrightarrow> length b1 < length body \<longrightarrow>
           section_end (\<lambda>y. Some ()) (after q b1, b2) = None)"
proof -
  define K where "K = (\<lambda>y. re_lookahead section_end
     (\<lambda>ya. Some (take (length (snd (q, t)) - length (snd y)) (snd (q, t)))) y)"
  have K: "K (p, u) = (if section_end (\<lambda>y. Some ()) (p, u) = None then None
      else Some (take (length t - length u) t))" for p u
    by (simp add: K_def re_lookahead_def split: option.splits)
  from assms have "re_lazy is_any K (q, t) = Some body"
    by (simp add: section_body_def re_group_def K_def)
  from lazy_SomeD [OF this] obtain w post where wp: "t = w @ post"
    "K (after q w, post) = Some body"
    and least: "\<And>w' t'. t = w' @ t' \<Longrightarrow> length w' < length w \<Longrightarrow> K (after q w', t') = None"
    by blast
  from wp have body: "body = w" and e: "section_end (\<lambda>y. Some ()) (after q w, post) \<noteq> None"
    by (auto simp: K split: if_splits)
  have "section_end (\<lambda>y. Some ()) (after q b1, b2) = None"
    if "t = b1 @ b2" "length b1 < length body" for b1 b2
    using least [OF that(1)] that(2) body by (simp add: K split: if_splits)
  with wp(1) body e show ?thesis by blast
qed

lemma acSectionMatch_sub:
  assumes "acSectionMatch d = Some body"
  shows "\<exists>a b. d = a @ body @ b"
proof -
  from assms have "match_first acSectionRegex (None, d) = Some body"
    by (simp add: acSectionMatch_def)
  from match_first_SomeD [OF this] obtain w t where wt: "d = w @ t"
    "acSectionRegex (after None w, t) = Some body" by blast
  define PRE :: "(pos \<Rightarrow> string option) \<Rightarrow> pos \<Rightarrow> string option"
    where "PRE = re_alt re_bos (re_one (is_char CHR 0x0A)) \<circ> re_one (is_char CHR ''#'')
       \<circ> re_upto 2 (is_char CHR ''#'') \<circ> re_star is_space \<circ> re_lit_i ''acceptance''
       \<circ> re_star is_space \<circ> re_lit_i ''criteria'' \<circ> re_star is_space
       \<circ> re_one (is_char CHR 0x0A)"
  have pre: "passes PRE"
    unfolding PRE_def by (intro passes_intros passes_alt)
  have "PRE section_body (after None w, t) = Some body"
    using wt(2) unfolding PRE_def acSectionRegex_form .
  from passesD [OF pre this]
  obtain w' t' where wt': "t = w' @ t'" "section_body (after (after None w) w', t') = Some body"
    by blast
  from section_bodyD [OF wt'(2)] obtain post where "t' = body @ post" by blast
  with wt(1) wt'(1) have "d = (w @ w') @ body @ post" by simp
  then show ?thesis by blast
qed

lemma textToSearch_sub: "\<exists>a b. d = a @ textToSearch d @ b"
proof (cases "acSectionMatch d")
  case None
  then have "d = [] @ textToSearch d @ []" by (simp add: textToSearch_def)
  then show ?thesis by blast
next
  case (Some body)
  with acSectionMatch_sub [OF Some] show ?thesis by (simp add: textToSearch_def)
qed

subsection \<open>The result of the extraction\<close>

lemma extract_cases:
  assumes "t \<noteq> []"
  shows "extractAcceptanceCriteria (Some t) = collect [] (exec_all checkboxRegex (None, textToSearch t))
       \<or> extractAcceptanceCriteria (Some t) = collect [] (exec_all numberedRegex (None, textToSearch t))
       \<or> extractAcceptanceCriteria (Some t) = collect [] (exec_all bulletRegex (None, textToSearch t))"
proof (cases "collect [] (exec_all checkboxRegex (None, textToSearch t)) = []")
  case False
  with assms show ?thesis by (simp add: extractAcceptanceCriteria_def Let_def)
next
  case cb: True
  show ?thesis
  proof (cases "collect [] (exec_all numberedRegex (None, textToSearch t)) = []")
    case False
    with assms cb show ?thesis by (simp add: extractAcceptanceCriteria_def Let_def)
  next
    case True
    with assms cb show ?thesis by (auto simp: extractAcceptanceCriteria_def Let_def)
  qed
qed

lemma collect_properties:
  assumes "item_pattern r"
  shows "(\<forall>c \<in> set (collect [] (exec_all r (None, textToSearch t))). c \<noteq> [] \<and> trim c = c)
       \<and> distinct (collect [] (exec_all r (None, textToSearch t)))
       \<and> appear_in_order (collect [] (exec_all r (None, textToSearch t))) t"
proof -
  let ?ms = "exec_all r (None, textToSearch t)"
  have "appear_in_order ([] @ ?ms) (textToSearch t)"
    using appear_exec_all [OF assms] by simp
  from collect_appear [OF this] have "appear_in_order (collect [] ?ms) (textToSearch t)" .
  then have "appear_in_order (collect [] ?ms) (textToSearch t @ b)" for b
    by (rule appear_suffix)
  then have "appear_in_order (collect [] ?ms) (a @ textToSearch t @ b)" for a b
    by (rule appear_prefix)
  moreover obtain a b where "t = a @ textToSearch t @ b" using textToSearch_sub by blast
  ultimately have "appear_in_order (collect [] ?ms) t" by metis
  with collect_invariant [of "[]" ?ms] show ?thesis by simp
qed

lemma extract_properties:
  "(\<forall>c \<in> set (extractAcceptanceCriteria (Some t)). c \<noteq> [] \<and> trim c = c)
   \<and> distinct (extractAcceptanceCriteria (Some t))
   \<and> appear_in_order (extractAcceptanceCriteria (Some t)) t"
proof (cases "t = []")
  case True
  then show ?thesis by (simp add: extractAcceptanceCriteria_def)
next
  case False
  from extract_cases [OF False] consider
      "extractAcceptanceCriteria (Some t) = collect [] (exec_all checkboxRegex (None, textToSearch t))"
    | "extractAcceptanceCriteria (Some t) = collect [] (exec_all numberedRegex (None, textToSearch t))"
    | "extractAcceptanceCriteria (Some t) = collect [] (exec_all bulletRegex (None, textToSearch t))"
    by blast
  then show ?thesis
  proof cases
    case 1
    show ?thesis unfolding 1 by (rule collect_properties [OF item_pattern_checkbox])
  next
    case 2
    show ?thesis unfolding 2 by (rule collect_properties [OF item_pattern_numbered])
  next
    case 3
    show ?thesis unfolding 3 by (rule collect_properties [OF item_pattern_bullet])
  qed
qed

lemma collect_Nil_first_occurrences: "collect [] ms = first_occurrences (candidates ms)"
  using collect_first_occurrences [of "[]" ms] by (simp add: first_occurrences_def)

subsection \<open>Texts without an item marker\<close>

lemma exec_all_none:
  assumes "\<And>p v x. r (p, v) = Some x \<Longrightarrow> \<exists>c \<in> set v. B c"
    and "\<forall>c \<in> set s. \<not> B c"
  shows "exec_all r (p, s) = []"
  using assms(2)
proof (induction s arbitrary: p)
  case Nil
  have "r (p, []) = None" using assms(1) [of p "[]"] by (cases "r (p, [])") auto
  then show ?case by simp
next
  case (Cons c cs)
  have "r (p, c # cs) = None"
    using assms(1) [of p "c # cs"] Cons.prems by (cases "r (p, c # cs)") auto
  moreover have "exec_all r (Some c, cs) = []" using Cons by simp
  ultimately show ?case by simp
qed

lemma marker_needed:
  assumes "(re_bol \<circ> re_star is_space) (re_one B k) (p, v) = Some x"
  shows "\<exists>c \<in> set v. B c"
proof -
  have "passes (re_bol \<circ> re_star is_space :: (pos \<Rightarrow> 'a option) \<Rightarrow> pos \<Rightarrow> 'a option)"
    by (intro passes_intros)
  from passesD [OF this assms] obtain w t where wt: "v = w @ t"
    "re_one B k (after p w, t) = Some x" by blast
  from one_SomeD [OF wt(2)] obtain c t' where "t = c # t'" "B c" by blast
  with wt(1) show ?thesis by auto
qed

lemma checkbox_needs_bullet: "checkboxRegex (p, v) = Some x \<Longrightarrow> \<exists>c \<in> set v. is_bullet c"
  by (rule marker_needed [where k = "re_star is_space (re_one (is_char CHR ''['')
       (re_one is_box (re_one (is_char CHR '']'') (re_star is_space item_text))))"])
     (simp add: checkboxRegex_def)

lemma bullet_needs_bullet: "bulletRegex (p, v) = Some x \<Longrightarrow> \<exists>c \<in> set v. is_bullet c"
  by (rule marker_needed [where k = "re_plus is_space item_text"]) (simp add: bulletRegex_def)

lemma numbered_needs_digit: "numberedRegex (p, v) = Some x \<Longrightarrow> \<exists>c \<in> set v. is_digit c"
  by (rule marker_needed [where k = "re_star is_digit (re_one is_delimiter (re_star is_space item_text))"])
     (simp add: numberedRegex_def re_plus_def)

lemma extract_no_marker:
  assumes "\<forall>c \<in> set t. \<not> is_bullet c \<and> \<not> is_digit c"
  shows "extractAcceptanceCriteria (Some t) = []"
proof -
  obtain a b where "t = a @ textToSearch t @ b" using textToSearch_sub by blast
  then have "set (textToSearch t) \<subseteq> set t" by (metis Un_upper1 Un_upper2 set_append subset_trans)
  with assms have nb: "\<forall>c \<in> set (textToSearch t). \<not> is_bullet c"
    and nd: "\<forall>c \<in> set (textToSearch t). \<not> is_digit c" by auto
  have "exec_all checkboxRegex (None, textToSearch t) = []"
    using checkbox_needs_bullet nb by (rule exec_all_none)
  moreover have "exec_all bulletRegex (None, textToSearch t) = []"
    using bullet_needs_bullet nb by (rule exec_all_none)
  moreover have "exec_all numberedRegex (None, textToSearch t) = []"
    using numbered_needs_digit nd by (rule exec_all_none)
  ultimately show ?thesis by (simp add: extractAcceptanceCriteria_def Let_def)
qed

lemma extract_no_match:
  assumes "exec_all checkboxRegex (None, textToSearch t) = []"
    "exec_all numberedRegex (None, textToSearch t) = []"
    "exec_all bulletRegex (None, textToSearch t) = []"
  shows "extractAcceptanceCriteria (Some t) = []"
  using assms by (simp add: extractAcceptanceCriteria_def Let_def)

lemmas regex_defs =
  acSectionRegex_def section_body_def checkboxRegex_def numberedRegex_def bulletRegex_def
  item_text_def section_end_def re_alt_def re_bos_def re_eos_def re_bol_def re_eol_def
  re_lookahead_def re_group_def re_plus_def is_space_def is_line_terminator_def is_dot_def
  is_digit_def is_any_def is_char_def is_char_i_def ascii_upper_def is_bullet_def is_box_def
  is_delimiter_def numeral_2_eq_2

text \<open>
  Claim C6.  For every description, absent and empty ones included, the result of
  \<open>extractAcceptanceCriteria\<close> is a list of non-empty strings that are their own trim, no
  string occurs twice, and the strings occur in the description one after the other in the
  order of the list.  For a description that is not empty the result is the list of first
  occurrences of the trimmed, non-empty captures of one of the three item patterns.  An
  absent or empty description, a description without a bullet marker and a digit, and a
  description in whose searched text no item pattern matches yield the empty list.
\<close>

theorem extraction_well_formed:
  "(\<forall>c \<in> set (extractAcceptanceCriteria d). c \<noteq> [] \<and> trim c = c)
   \<and> distinct (extractAcceptanceCriteria d)
   \<and> (\<forall>t. d = Some t \<longrightarrow> appear_in_order (extractAcceptanceCriteria d) t)
   \<and> (\<forall>t. d = Some t \<and> t \<noteq> [] \<longrightarrow>
         (\<exists>r \<in> {checkboxRegex, numberedRegex, bulletRegex}.
            extractAcceptanceCriteria d
              = first_occurrences (candidates (exec_all r (None, textToSearch t)))))
   \<and> extractAcceptanceCriteria None = []
   \<and> extractAcceptanceCriteria (Some []) = []
   \<and> (\<forall>t. d = Some t \<and> (\<forall>c \<in> set t. \<not> is_bullet c \<and> \<not> is_digit c) \<longrightarrow>
         extractAcceptanceCriteria d = [])
   \<and> (\<forall>t. d = Some t \<and> exec_all checkboxRegex (None, textToSearch t) = []
          \<and> exec_all numberedRegex (None, textToSearch t) = []
          \<and> exec_all bulletRegex (None, textToSearch t) = [] \<longrightarrow>
         extractAcceptanceCriteria d = [])"
proof -
  have none: "extractAcceptanceCriteria None = []" "extractAcceptanceCriteria (Some []) = []"
    by (simp_all add: extractAcceptanceCriteria_def)
  have wf: "(\<forall>c \<in> set (extractAcceptanceCriteria d). c \<noteq> [] \<and> trim c = c)
      \<and> distinct (extractAcceptanceCriteria d)"
  proof (cases d)
    case None
    then show ?thesis by (simp add: none)
  next
    case (Some t)
    with extract_properties [of t] show ?thesis by simp
  qed
  have ord: "appear_in_order (extractAcceptanceCriteria d) t" if "d = Some t" for t
    using extract_properties [of t] that by simp
  have first: "\<exists>r \<in> {checkboxRegex, numberedRegex, bulletRegex}.
            extractAcceptanceCriteria d
              = first_occurrences (candidates (exec_all r (None, textToSearch t)))"
    if "d = Some t" "t \<noteq> []" for t
    using extract_cases [OF that(2)] that(1)
    by (auto simp: collect_Nil_first_occurrences)
  from wf ord first none extract_no_marker extract_no_match show ?thesis
    by blast
qed

theorem extraction_well_formed_witness:
  "extractAcceptanceCriteria
      (Some ''## Acceptance Criteria\<newline>- [ ] A\<newline>- [x] B\<newline>- [ ] A'') = [''A'', ''B'']
   \<and> distinct (extractAcceptanceCriteria
      (Some ''## Acceptance Criteria\<newline>- [ ] A\<newline>- [x] B\<newline>- [ ] A''))
   \<and> appear_in_order (extractAcceptanceCriteria
      (Some ''## Acceptance Criteria\<newline>- [ ] A\<newline>- [x] B\<newline>- [ ] A''))
      ''## Acceptance Criteria\<newline>- [ ] A\<newline>- [x] B\<newline>- [ ] A''
   \<and> extractAcceptanceCriteria (Some ''no criteria here'') = []"
proof -
  have m: "acSectionMatch ''## Acceptance Criteria\<newline>- [ ] A\<newline>- [x] B\<newline>- [ ] A''
      = Some ''- [ ] A\<newline>- [x] B\<newline>- [ ] A''"
    by (simp add: acSectionMatch_def regex_defs)
  have c: "exec_all checkboxRegex (None, ''- [ ] A\<newline>- [x] B\<newline>- [ ] A'') = [''A'', ''B'', ''A'']"
    by (simp add: regex_defs)
  have ts: "textToSearch ''## Acceptance Criteria\<newline>- [ ] A\<newline>- [x] B\<newline>- [ ] A''
      = ''- [ ] A\<newline>- [x] B\<newline>- [ ] A''"
    by (simp add: textToSearch_def m)
  have v: "extractAcceptanceCriteria
      (Some ''## Acceptance Criteria\<newline>- [ ] A\<newline>- [x] B\<newline>- [ ] A'') = [''A'', ''B'']"
    by (simp add: extractAcceptanceCriteria_def ts c trim_def is_space_def del: exec_all.simps)
  have nm: "\<forall>c \<in> set ''no criteria here''. \<not> is_bullet c \<and> \<not> is_digit c"
    by (simp add: is_bullet_def is_digit_def)
  note w = extraction_well_formed
    [of "Some ''## Acceptance Criteria\<newline>- [ ] A\<newline>- [x] B\<newline>- [ ] A''"]
  note w2 = extraction_well_formed [of "Some ''no criteria here''"]
  from w have "distinct (extractAcceptanceCriteria
      (Some ''## Acceptance Criteria\<newline>- [ ] A\<newline>- [x] B\<newline>- [ ] A''))"
    by blast
  moreover from w have "appear_in_order (extractAcceptanceCriteria
      (Some ''## Acceptance Criteria\<newline>- [ ] A\<newline>- [x] B\<newline>- [ ] A''))
      ''## Acceptance Criteria\<newline>- [ ] A\<newline>- [x] B\<newline>- [ ] A''"
    by blast
  moreover from w2 nm have "extractAcceptanceCriteria (Some ''no criteria here'') = []"
    by blast
  ultimately show ?thesis using v by blast
qed

text \<open>
  Claim C10.  In the section of the input \<open>## Acceptance Criteria\<newline>- [ ]\<close> the checkbox
  pattern has no match, since no text follows the token, and neither has the numbered
  pattern; the plain bullet pattern captures the token, so the result is the one string
  \<open>[ ]\<close>.
\<close>

theorem bare_checkbox_token:
  "acSectionMatch ''## Acceptance Criteria\<newline>- [ ]'' = Some ''- [ ]''
   \<and> exec_all checkboxRegex (None, ''- [ ]'') = []
   \<and> exec_all numberedRegex (None, ''- [ ]'') = []
   \<and> exec_all bulletRegex (None, ''- [ ]'') = [''[ ]'']
   \<and> extractAcceptanceCriteria (Some ''## Acceptance Criteria\<newline>- [ ]'') = [''[ ]'']"
proof -
  have m: "acSectionMatch ''## Acceptance Criteria\<newline>- [ ]'' = Some ''- [ ]''"
    by (simp add: acSectionMatch_def regex_defs)
  have c: "exec_all checkboxRegex (None, ''- [ ]'') = []"
    by (simp add: regex_defs)
  have n: "exec_all numberedRegex (None, ''- [ ]'') = []"
    by (simp add: regex_defs)
  have b: "exec_all bulletRegex (None, ''- [ ]'') = [''[ ]'']"
    by (simp add: regex_defs)
  have ts: "textToSearch ''## Acceptance Criteria\<newline>- [ ]'' = ''- [ ]''"
    by (simp add: textToSearch_def m)
  have "extractAcceptanceCriteria (Some ''## Acceptance Criteria\<newline>- [ ]'') = [''[ ]'']"
    by (simp add: extractAcceptanceCriteria_def ts c n b m trim_def is_space_def del: exec_all.simps)
  with m c n b show ?thesis by simp
qed

subsection \<open>Checkbox lines\<close>














subsection \<open>The extent of the section\<close>

lemma space_not_hash: "is_space c \<Longrightarrow> c \<noteq> CHR ''#''"
  by (auto simp: is_space_def)

lemma hashes_cases:
  assumes "\<forall>x \<in> set w. is_char CHR ''#'' x" "length w \<le> 2"
  shows "w = [] \<or> w = ''#'' \<or> w = ''##''"
proof -
  from assms(2) consider "w = []" | a where "w = [a]" | a b where "w = [a, b]"
    by (cases w; cases "tl w"; cases "tl (tl w)") auto
  then show ?thesis using assms(1) by cases (auto simp: is_char_def)
qed

lemma section_end_iff:
  "section_end (\<lambda>y. Some ()) (q, t) \<noteq> None \<longleftrightarrow> ends_section t"
proof
  assume "section_end (\<lambda>y. Some ()) (q, t) \<noteq> None"
  then consider
      (heading) "re_one (is_char CHR 0x0A) (re_one (is_char CHR ''#'')
          (re_upto 2 (is_char CHR ''#'') (re_one is_space (\<lambda>y. Some ())))) (q, t) = Some ()"
    | (blank) "re_one (is_char CHR 0x0A) (re_one (is_char CHR 0x0A)
          (re_one (is_char CHR 0x0A) (\<lambda>y. Some ()))) (q, t) = Some ()"
    | (eos) "re_eos (\<lambda>y. Some ()) (q, t) = Some ()"
    by (auto simp: section_end_def re_alt_def split: option.splits)
  then show "ends_section t"
  proof cases
    case heading
    from one_SomeD [OF heading] obtain c1 t1 where 1: "t = c1 # t1" "is_char CHR 0x0A c1"
      "re_one (is_char CHR ''#'') (re_upto 2 (is_char CHR ''#'') (re_one is_space (\<lambda>y. Some ())))
         (Some c1, t1) = Some ()" by blast
    from one_SomeD [OF 1(3)] obtain c2 t2 where 2: "t1 = c2 # t2" "is_char CHR ''#'' c2"
      "re_upto 2 (is_char CHR ''#'') (re_one is_space (\<lambda>y. Some ())) (Some c2, t2) = Some ()"
      by blast
    from upto_SomeD [OF 2(3)] obtain w t3 where 3: "t2 = w @ t3"
      "\<forall>x \<in> set w. is_char CHR ''#'' x" "length w \<le> 2"
      "re_one is_space (\<lambda>y. Some ()) (after (Some c2) w, t3) = Some ()" by blast
    from one_SomeD [OF 3(4)] obtain c r where 4: "t3 = c # r" "is_space c" by blast
    have t: "t = CHR 0x0A # CHR ''#'' # w @ c # r"
      using 1(1,2) 2(1,2) 3(1) 4(1) by (simp add: is_char_def)
    from hashes_cases [OF 3(2,3)] show ?thesis
    proof (elim disjE)
      assume "w = []"
      with t 4(2) show ?thesis by (simp add: ends_section_def)
    next
      assume "w = ''#''"
      with t 4(2) show ?thesis by (simp add: ends_section_def numeral_2_eq_2)
    next
      assume "w = ''##''"
      with t 4(2) show ?thesis by (simp add: ends_section_def numeral_3_eq_3)
    qed
  next
    case blank
    from one_SomeD [OF blank] obtain c1 t1 where 1: "t = c1 # t1" "is_char CHR 0x0A c1"
      "re_one (is_char CHR 0x0A) (re_one (is_char CHR 0x0A) (\<lambda>y. Some ())) (Some c1, t1) = Some ()"
      by blast
    from one_SomeD [OF 1(3)] obtain c2 t2 where 2: "t1 = c2 # t2" "is_char CHR 0x0A c2"
      "re_one (is_char CHR 0x0A) (\<lambda>y. Some ()) (Some c2, t2) = Some ()" by blast
    from one_SomeD [OF 2(3)] obtain c3 t3 where 3: "t2 = c3 # t3" "is_char CHR 0x0A c3" by blast
    from 1(1,2) 2(1,2) 3 show ?thesis
      by (simp add: ends_section_def is_char_def numeral_3_eq_3)
  next
    case eos
    then show ?thesis by (simp add: re_eos_def ends_section_def split: list.splits)
  qed
next
  assume "ends_section t"
  then consider (eos) "t = []"
    | (blank) "take 3 t = [CHR 0x0A, CHR 0x0A, CHR 0x0A]"
    | (heading) h where "h \<in> {1, 2, 3}" "take (Suc h) t = CHR 0x0A # replicate h CHR ''#''"
        "Suc h < length t" "is_space (t ! Suc h)"
    unfolding ends_section_def by blast
  then show "section_end (\<lambda>y. Some ()) (q, t) \<noteq> None"
  proof cases
    case eos
    then show ?thesis by (simp add: section_end_def re_alt_def re_eos_def)
  next
    case blank
    then obtain r where "t = CHR 0x0A # CHR 0x0A # CHR 0x0A # r"
      by (cases t; cases "tl t"; cases "tl (tl t)") (auto simp: numeral_3_eq_3)
    then show ?thesis by (simp add: section_end_def re_alt_def is_char_def)
  next
    case heading
    define c where "c = t ! Suc h"
    define r where "r = drop (Suc (Suc h)) t"
    have "t = take (Suc h) t @ c # r"
      unfolding c_def r_def using heading(3) by (simp add: id_take_nth_drop [symmetric])
    then have t: "t = CHR 0x0A # replicate h CHR ''#'' @ c # r"
      using heading(2) by simp
    have c: "is_space c" "c \<noteq> CHR ''#''"
      using heading(4) space_not_hash by (auto simp: c_def)
    from heading(1) consider "h = 1" | "h = 2" | "h = 3" by auto
    then show ?thesis
    proof cases
      case 1
      with t c show ?thesis
        by (simp add: section_end_def re_alt_def is_char_def numeral_2_eq_2)
    next
      case 2
      with t c show ?thesis
        by (simp add: section_end_def re_alt_def is_char_def numeral_2_eq_2)
    next
      case 3
      with t c show ?thesis
        by (simp add: section_end_def re_alt_def is_char_def numeral_2_eq_2 numeral_3_eq_3)
    qed
  qed
qed

lemma lazy_total:
  assumes "\<And>p. k (p, []) \<noteq> None" "\<And>c. C c"
  shows "re_lazy C k (p, s) \<noteq> None"
proof (induction s arbitrary: p)
  case Nil
  show ?case using assms(1) by simp
next
  case (Cons c cs)
  show ?case using Cons [of "Some c"] assms(2) by (cases "k (p, c # cs)") auto
qed

lemma section_body_total: "section_body (q, t) \<noteq> None"
  unfolding section_body_def re_group_def
  by (rule lazy_total)
     (simp_all add: re_lookahead_def section_end_def re_alt_def re_eos_def is_any_def)

lemma acSectionMatchD:
  assumes "acSectionMatch d = Some body"
  shows "\<exists>pre heading post. d = pre @ heading @ body @ post
     \<and> (pre = [] \<or> last pre = CHR 0x0A)
     \<and> ac_heading heading
     \<and> CHR 0x0A \<notin> set (takeWhile is_space (body @ post))
     \<and> ends_section post
     \<and> (\<forall>b1 b2. body = b1 @ b2 \<and> b2 \<noteq> [] \<longrightarrow> \<not> ends_section (b2 @ post))"
proof -
  define K6 where "K6 = re_star is_space (re_one (is_char CHR 0x0A) section_body)"
  define K4 where "K4 = re_star is_space (re_lit_i ''criteria'' K6)"
  define K2 where "K2 = re_star is_space (re_lit_i ''acceptance'' K4)"
  define K where "K = re_one (is_char CHR ''#'') (re_upto 2 (is_char CHR ''#'') K2)"
  have R: "acSectionRegex = re_alt re_bos (re_one (is_char CHR 0x0A)) K"
    by (simp add: acSectionRegex_def K_def K2_def K4_def K6_def)
  from assms have "match_first acSectionRegex (None, d) = Some body"
    by (simp add: acSectionMatch_def)
  from match_first_SomeD [OF this] obtain w t where wt: "d = w @ t"
    "acSectionRegex (after None w, t) = Some body" by blast
  from wt(2) consider (start) "re_bos K (after None w, t) = Some body"
    | (line) "re_one (is_char CHR 0x0A) K (after None w, t) = Some body"
    unfolding R by (auto simp: re_alt_def split: option.splits)
  then obtain pre q t1 where p: "d = pre @ t1" "pre = [] \<or> last pre = CHR 0x0A"
    "K (q, t1) = Some body"
  proof cases
    case start
    then have "after None w = None" "K (after None w, t) = Some body"
      by (auto simp: re_bos_def split: option.splits)
    moreover from this(1) have "w = []" by (simp add: after_def split: if_splits)
    ultimately show ?thesis using wt(1) that [of "[]" t None] by simp
  next
    case line
    from one_SomeD [OF line] obtain c t1 where "t = c # t1" "is_char CHR 0x0A c"
      "K (Some c, t1) = Some body" by blast
    with wt(1) that [of "w @ [CHR 0x0A]" t1 "Some c"] show ?thesis
      by (simp add: is_char_def)
  qed
  from one_SomeD [OF p(3) [unfolded K_def]] obtain c1 t2 where 1: "t1 = c1 # t2"
    "is_char CHR ''#'' c1" "re_upto 2 (is_char CHR ''#'') K2 (Some c1, t2) = Some body" by blast
  from upto_SomeD [OF 1(3)] obtain h2 t3 where 2: "t2 = h2 @ t3"
    "\<forall>x \<in> set h2. is_char CHR ''#'' x" "length h2 \<le> 2"
    "K2 (after (Some c1) h2, t3) = Some body" by blast
  from star_SomeD [OF 2(4) [unfolded K2_def]] obtain w0 t4 where 3: "t3 = w0 @ t4"
    "\<forall>x \<in> set w0. is_space x"
    "re_lit_i ''acceptance'' K4 (after (after (Some c1) h2) w0, t4) = Some body" by blast
  from lit_i_SomeD [OF 3(3)] obtain a t5 where 4: "t4 = a @ t5"
    "list_all2 is_char_i ''acceptance'' a"
    "K4 (after (after (after (Some c1) h2) w0) a, t5) = Some body" by blast
  from star_SomeD [OF 4(3) [unfolded K4_def]] obtain w1 t6 where 5: "t5 = w1 @ t6"
    "\<forall>x \<in> set w1. is_space x"
    "re_lit_i ''criteria'' K6 (after (after (after (after (Some c1) h2) w0) a) w1, t6) = Some body"
    by blast
  from lit_i_SomeD [OF 5(3)] obtain c t7 where 6: "t6 = c @ t7"
    "list_all2 is_char_i ''criteria'' c"
    "K6 (after (after (after (after (after (Some c1) h2) w0) a) w1) c, t7) = Some body" by blast
  define q7 where "q7 = after (after (after (after (after (Some c1) h2) w0) a) w1) c"
  from star_SomeD [OF 6(3) [unfolded K6_def]] obtain w2 t8 where 7: "t7 = w2 @ t8"
    "\<forall>x \<in> set w2. is_space x"
    "re_one (is_char CHR 0x0A) section_body (after q7 w2, t8) = Some body"
    and greedy: "\<And>w' t'. t7 = w' @ t' \<Longrightarrow> \<forall>x \<in> set w'. is_space x \<Longrightarrow> length w2 < length w'
      \<Longrightarrow> re_one (is_char CHR 0x0A) section_body (after q7 w', t') = None"
    unfolding q7_def by blast
  from one_SomeD [OF 7(3)] obtain c8 t9 where 8: "t8 = c8 # t9" "is_char CHR 0x0A c8"
    "section_body (Some c8, t9) = Some body" by blast
  from section_bodyD [OF 8(3)] obtain post where 9: "t9 = body @ post"
    "section_end (\<lambda>y. Some ()) (after (Some c8) body, post) \<noteq> None"
    and least: "\<And>b1 b2. t9 = b1 @ b2 \<Longrightarrow> length b1 < length body \<Longrightarrow>
           section_end (\<lambda>y. Some ()) (after (Some c8) b1, b2) = None"
    by blast
  define hashes where "hashes = c1 # h2"
  define heading where "heading = hashes @ w0 @ a @ w1 @ c @ w2 @ [CHR 0x0A]"
  have hashes: "hashes \<in> {''#'', ''##'', ''###''}"
    using hashes_cases [OF 2(2,3)] 1(2) by (auto simp: hashes_def is_char_def)
  have "ac_heading heading"
    unfolding ac_heading_def heading_def
    using hashes 3(2) 4(2) 5(2) 6(2) 7(2)
    by (intro exI [of _ hashes] exI [of _ w0] exI [of _ a] exI [of _ w1] exI [of _ c]
        exI [of _ w2]) (simp add: list_all_iff)
  moreover have "d = pre @ heading @ body @ post"
    using p(1) 1(1) 2(1) 3(1) 4(1) 5(1) 6(1) 7(1) 8(1,2) 9(1)
    by (simp add: heading_def hashes_def is_char_def)
  moreover have "CHR 0x0A \<notin> set (takeWhile is_space (body @ post))"
  proof
    assume "CHR 0x0A \<in> set (takeWhile is_space (body @ post))"
    then obtain u v where uv: "takeWhile is_space t9 = u @ CHR 0x0A # v"
      unfolding 9(1) by (metis split_list)
    have "t9 = takeWhile is_space t9 @ dropWhile is_space t9" by simp
    then have t9: "t9 = u @ CHR 0x0A # (v @ dropWhile is_space t9)" unfolding uv by simp
    have u: "\<forall>x \<in> set u. is_space x"
      using uv by (metis Un_iff set_append set_takeWhileD)
    define w' where "w' = w2 @ [CHR 0x0A] @ u"
    have "t7 = w' @ CHR 0x0A # (v @ dropWhile is_space t9)"
      using 7(1) 8(1,2) t9 by (simp add: w'_def is_char_def)
    moreover have "\<forall>x \<in> set w'. is_space x"
      using 7(2) u by (auto simp: w'_def is_space_def)
    moreover have "length w2 < length w'" by (simp add: w'_def)
    ultimately have "re_one (is_char CHR 0x0A) section_body
        (after q7 w', CHR 0x0A # (v @ dropWhile is_space t9)) = None"
      by (rule greedy)
    then show False using section_body_total by (simp add: is_char_def)
  qed
  moreover have "ends_section post" using 9(2) section_end_iff by blast
  moreover have "\<not> ends_section (b2 @ post)" if "body = b1 @ b2" "b2 \<noteq> []" for b1 b2
  proof -
    have "t9 = b1 @ (b2 @ post)" "length b1 < length body" using that 9(1) by simp_all
    from least [OF this] show ?thesis using section_end_iff by blast
  qed
  ultimately show ?thesis using p(2) by blast
qed

text \<open>
  Claim C7, as the code has it.  When \<open>extractAcceptanceCriteria\<close> finds a heading of one
  to three \<open>#\<close> whose text is \<open>acceptance criteria\<close> in any case, the section body starts
  after the last line break of the whitespace that follows the heading text, so that blank
  lines after the heading are not part of it.  The body ends at the first place where a
  line break is followed by one to three \<open>#\<close> and a whitespace character, whatever the
  depth of the heading of the section, or by two more line breaks, or where the text ends.
  A line of four or more \<open>#\<close> does not end the body.
\<close>

theorem section_extent:
  assumes "acSectionMatch d = Some body"
  shows "(\<exists>pre heading post. d = pre @ heading @ body @ post
       \<and> (pre = [] \<or> last pre = CHR 0x0A)
       \<and> ac_heading heading
       \<and> CHR 0x0A \<notin> set (takeWhile is_space (body @ post))
       \<and> ends_section post
       \<and> (\<forall>b1 b2. body = b1 @ b2 \<and> b2 \<noteq> [] \<longrightarrow> \<not> ends_section (b2 @ post)))
     \<and> (\<forall>c r. is_space c \<longrightarrow> ends_section (''\<newline>#'' @ c # r)
           \<and> ends_section (''\<newline>##'' @ c # r) \<and> ends_section (''\<newline>###'' @ c # r))
     \<and> (\<forall>r. \<not> ends_section (''\<newline>####'' @ r))"
proof -
  have "ends_section (''\<newline>#'' @ c # r) \<and> ends_section (''\<newline>##'' @ c # r)
      \<and> ends_section (''\<newline>###'' @ c # r)" if "is_space c" for c r
    using that by (simp add: ends_section_def numeral_2_eq_2 numeral_3_eq_3)
  moreover have "\<not> ends_section (''\<newline>####'' @ r)" for r
    by (simp add: ends_section_def numeral_2_eq_2 numeral_3_eq_3 is_space_def)
  ultimately show ?thesis using acSectionMatchD [OF assms] by blast
qed

theorem section_extent_witness:
  "acSectionMatch ''# Acceptance Criteria\<newline>\<newline>- [ ] A\<newline>#### deep\<newline>- [ ] B\<newline>## Notes\<newline>- [ ] C''
     = Some ''- [ ] A\<newline>#### deep\<newline>- [ ] B''
   \<and> (\<exists>pre heading post.
        ''# Acceptance Criteria\<newline>\<newline>- [ ] A\<newline>#### deep\<newline>- [ ] B\<newline>## Notes\<newline>- [ ] C''
          = pre @ heading @ ''- [ ] A\<newline>#### deep\<newline>- [ ] B'' @ post
        \<and> ac_heading heading \<and> ends_section post)"
proof -
  have m: "acSectionMatch ''# Acceptance Criteria\<newline>\<newline>- [ ] A\<newline>#### deep\<newline>- [ ] B\<newline>## Notes\<newline>- [ ] C''
     = Some ''- [ ] A\<newline>#### deep\<newline>- [ ] B''"
    by (simp add: acSectionMatch_def regex_defs)
  from section_extent [OF m] m show ?thesis by blast
qed

text \<open>
  A heading of greater depth does end the section, and a blank line after the heading is
  not part of the body: the body of a section of depth 1 stops before \<open>## Notes\<close>, where
  the specification's body of depth 1 goes on to the end of the text.
\<close>

theorem deeper_heading_ends_section:
  "acSectionMatch (''# Acceptance Criteria\<newline>'' @ ''- [ ] A\<newline>## Notes\<newline>- [ ] B'')
     = Some ''- [ ] A''
   \<and> spec_section_body 1 ''- [ ] A\<newline>## Notes\<newline>- [ ] B'' = ''- [ ] A\<newline>## Notes\<newline>- [ ] B''
   \<and> extractAcceptanceCriteria (Some ''# Acceptance Criteria\<newline>- [ ] A\<newline>## Notes\<newline>- [ ] B'')
     = [''A'']
   \<and> acSectionMatch (''## Acceptance Criteria\<newline>'' @ ''\<newline>- [ ] A'') = Some ''- [ ] A''
   \<and> spec_section_body 2 ''\<newline>- [ ] A'' = ''\<newline>- [ ] A''"
proof -
  have m: "acSectionMatch ''# Acceptance Criteria\<newline>- [ ] A\<newline>## Notes\<newline>- [ ] B'' = Some ''- [ ] A''"
    by (simp add: acSectionMatch_def regex_defs)
  have ts: "textToSearch ''# Acceptance Criteria\<newline>- [ ] A\<newline>## Notes\<newline>- [ ] B'' = ''- [ ] A''"
    by (simp add: textToSearch_def m)
  have c: "exec_all checkboxRegex (None, ''- [ ] A'') = [''A'']"
    by (simp add: regex_defs)
  have e: "extractAcceptanceCriteria (Some ''# Acceptance Criteria\<newline>- [ ] A\<newline>## Notes\<newline>- [ ] B'')
     = [''A'']"
    by (simp add: extractAcceptanceCriteria_def ts c trim_def is_space_def del: exec_all.simps)
  have s1: "spec_section_body 1 ''- [ ] A\<newline>## Notes\<newline>- [ ] B'' = ''- [ ] A\<newline>## Notes\<newline>- [ ] B''"
    by (simp add: spec_section_end_def is_space_def numeral_2_eq_2)
  have m2: "acSectionMatch ''## Acceptance Criteria\<newline>\<newline>- [ ] A'' = Some ''- [ ] A''"
    by (simp add: acSectionMatch_def regex_defs)
  have s2: "spec_section_body 2 ''\<newline>- [ ] A'' = ''\<newline>- [ ] A''"
    by (simp add: spec_section_end_def is_space_def numeral_2_eq_2)
  from m e s1 m2 s2 show ?thesis by simp
qed


end
